theory Spec2Isabelle
  imports Main "HOL-Library.Sublist"
begin

section \<open>Strings\<close>

text \<open>
  JavaScript strings are modelled as \<^typ>\<open>string\<close>. Only three string operations of the
  program matter: \<^verbatim>\<open>includes\<close>, \<^verbatim>\<open>startsWith\<close> and \<^verbatim>\<open>split\<close> with a one-character separator.
\<close>

text \<open>\<^verbatim>\<open>s.includes(word)\<close>: \<open>word\<close> occurs somewhere in \<open>s\<close>.\<close>

fun includes_str :: "string \<Rightarrow> string \<Rightarrow> bool" where
  "includes_str [] word = (word = [])"
| "includes_str (c # cs) word = (prefix word (c # cs) \<or> includes_str cs word)"

text \<open>\<^verbatim>\<open>s.startsWith(searchString)\<close>.\<close>

definition startsWith :: "string \<Rightarrow> string \<Rightarrow> bool" where
  "startsWith s searchString = prefix searchString s"

text \<open>
  \<^verbatim>\<open>s.split(sep)\<close> for a separator of one character: the pieces between the separators,
  empty pieces included; the empty string splits into one empty piece.
\<close>

fun split :: "char \<Rightarrow> string \<Rightarrow> string list" where
  "split sep [] = [[]]"
| "split sep (c # cs) =
     (if c = sep then [] # split sep cs
      else (case split sep cs of
              [] \<Rightarrow> [[c]]
            | piece # pieces \<Rightarrow> (c # piece) # pieces))"

text \<open>Array destructuring and indexing: an index beyond the end gives \<^verbatim>\<open>undefined\<close>.\<close>

fun at :: "'a list \<Rightarrow> nat \<Rightarrow> 'a option" where
  "at [] i = None"
| "at (x # xs) 0 = Some x"
| "at (x # xs) (Suc i) = at xs i"

section \<open>Errors\<close>

text \<open>
  The program raises nothing itself; every exception comes out of a library call. Only the
  failure of \<^verbatim>\<open>page.goto\<close> is caught (index.js, lines 142 to 146); any other one ends the run.
\<close>

datatype js_error =
    InvalidURL        \<comment> \<open>\<^verbatim>\<open>new URL(href, base)\<close> rejects its input\<close>
  | InvalidArgType    \<comment> \<open>\<^verbatim>\<open>path.join\<close> is given \<^verbatim>\<open>undefined\<close>\<close>
  | CaptureFailed     \<comment> \<open>\<^verbatim>\<open>page.setViewport\<close> or \<^verbatim>\<open>page.screenshot\<close> throws\<close>
  | FsFailed          \<comment> \<open>\<^verbatim>\<open>fs.mkdirSync\<close> or \<^verbatim>\<open>fs.writeFileSync\<close> throws\<close>

section \<open>The environment\<close>

text \<open>The two fields that the program reads of a parsed \<^verbatim>\<open>URL\<close> object.\<close>

record URL =
  url_hostname :: string
  url_href :: string

text \<open>
  What the browser shows after a navigation: \<^verbatim>\<open>window.location.href\<close> and, for every
  \<^verbatim>\<open><a></a>\<close> element in document order, \<^verbatim>\<open>getAttribute('href')\<close> (\<open>None\<close> is \<^verbatim>\<open>null\<close>).
\<close>

record document =
  location :: string
  elements :: "string option list"

text \<open>
  The library calls of the program. \<open>'n\<close> is the type of JavaScript numbers.
  \<^item> \<open>goto u\<close>: \<^verbatim>\<open>page.goto(u, {timeout: 30000})\<close>; \<open>None\<close> when it throws.
  \<^item> \<open>newURL href base\<close>: \<^verbatim>\<open>new URL(href, base)\<close>; \<open>None\<close> when it throws.
  \<^item> \<open>toNumber\<close>: \<^verbatim>\<open>Number\<close>.
  \<^item> \<open>screenshot u w h\<close>: \<^verbatim>\<open>setViewport({width, height})\<close> then
    \<^verbatim>\<open>screenshot({fullPage: true})\<close> on the page loaded from \<open>u\<close>; \<open>None\<close> when either throws.
  \<^item> \<open>pathJoin\<close>: \<^verbatim>\<open>path.join\<close> on string arguments; \<open>dirname\<close>: \<^verbatim>\<open>__dirname\<close>.
  \<^item> \<open>ensureDir d\<close>: \<^verbatim>\<open>fs.existsSync(d) || fs.mkdirSync(d, {recursive: true})\<close>;
    \<open>False\<close> when it throws.
  \<^item> \<open>writeFileSync f data\<close>: \<open>False\<close> when it throws.
  Launching and closing the browser, \<^verbatim>\<open>page.title()\<close> and the console are left out.
  The answers depend on the URL only: a run navigates to a URL at most once (this is proved
  below without any use of it), so nothing is lost.
\<close>

record 'n env =
  goto :: "string \<Rightarrow> document option"
  newURL :: "string \<Rightarrow> string \<Rightarrow> URL option"
  toNumber :: "string \<Rightarrow> 'n"
  screenshot :: "string \<Rightarrow> 'n option \<Rightarrow> 'n option \<Rightarrow> string option"
  pathJoin :: "string list \<Rightarrow> string"
  dirname :: string
  ensureDir :: "string \<Rightarrow> bool"
  writeFileSync :: "string \<Rightarrow> string \<Rightarrow> bool"

section \<open>Link extraction: \<^verbatim>\<open>getLinksFromPage\<close>\<close>

definition illegalWords :: "string list" where
  "illegalWords = [''mailto:'', ''tel:'', ''javascript:'', ''#'']"

text \<open>
  The second disjunct of line 78: \<^verbatim>\<open>[...].some(word => href.includes(word))\<close>.
\<close>

definition someIllegalWord :: "string \<Rightarrow> bool" where
  "someIllegalWord href = list_ex (\<lambda>word. includes_str href word) illegalWords"

text \<open>
  The loop of lines 73 to 97 over the anchors, with \<open>links\<close> the array built so far.
  \<^verbatim>\<open>!href\<close> holds of \<^verbatim>\<open>null\<close> and of the empty string. An exception of \<^verbatim>\<open>new URL\<close> leaves
  the loop and the function.
\<close>

fun scanElements ::
  "(string \<Rightarrow> string \<Rightarrow> URL option) \<Rightarrow> string \<Rightarrow> string \<Rightarrow> string option list \<Rightarrow>
   string list \<Rightarrow> js_error + string list" where
  "scanElements new_url loc domain [] links = Inr links"
| "scanElements new_url loc domain (None # as) links =
     scanElements new_url loc domain as links"
| "scanElements new_url loc domain (Some href # as) links =
     (if href = [] \<or> someIllegalWord href then scanElements new_url loc domain as links
      else
        (case new_url href loc of
           None \<Rightarrow> Inl InvalidURL
         | Some u \<Rightarrow>
             if url_hostname u \<noteq> domain then scanElements new_url loc domain as links
             else if \<not> includes_str href ''://'' then
               (case new_url href loc of
                  None \<Rightarrow> Inl InvalidURL
                | Some v \<Rightarrow> scanElements new_url loc domain as (links @ [url_href v]))
             else scanElements new_url loc domain as (links @ [href])))"

definition getLinksFromPage :: "'n env \<Rightarrow> document \<Rightarrow> string \<Rightarrow> js_error + string list" where
  "getLinksFromPage env doc domain =
     scanElements (newURL env) (location doc) domain (elements doc) []"

section \<open>Events\<close>

text \<open>
  The effects of a run, in the order in which the program causes them. \<open>Shift\<close> is
  \<^verbatim>\<open>queue.shift()\<close>, \<open>Visit\<close> is \<^verbatim>\<open>visited.add\<close>, \<open>Goto u ok\<close> is the call of \<^verbatim>\<open>page.goto\<close> and
  whether it returned, \<open>CapturePage\<close> and \<open>ExtractLinks\<close> are the calls of
  \<^verbatim>\<open>captureScreenshotsForPage\<close> and \<^verbatim>\<open>getLinksFromPage\<close> for the URL being processed,
  \<open>Screenshot\<close> is a call of \<^verbatim>\<open>captureScreenshot\<close> with its width and height, \<open>WriteFile\<close> is a
  completed \<^verbatim>\<open>fs.writeFileSync\<close> with its path, \<open>Push\<close> is \<^verbatim>\<open>queue.push\<close>.
\<close>

datatype 'n event =
    Shift string
  | Visit string
  | Goto string bool
  | CapturePage string
  | EnsureDir string
  | Screenshot "'n option" "'n option"
  | WriteFile string string
  | ExtractLinks string
  | Push string

section \<open>Screenshots of one page: \<^verbatim>\<open>captureScreenshotsForPage\<close>\<close>

text \<open>Line 34: the non-empty pieces of the URL between slashes, other than \<^verbatim>\<open>https:\<close>.\<close>

definition segmentsOf :: "string \<Rightarrow> string list" where
  "segmentsOf url =
     filter (\<lambda>segment. segment \<noteq> [] \<and> segment \<noteq> ''https:'') (split (CHR ''/'') url)"

text \<open>
  The character class of line 36: \<^verbatim>\<open>< > : " / \ | ? *\<close> and the control characters
  \<^verbatim>\<open>\x00\<close> to \<^verbatim>\<open>\x1F\<close>.
\<close>

definition unsafeChar :: "char \<Rightarrow> bool" where
  "unsafeChar c =
     (c \<in> {CHR ''<'', CHR ''>'', CHR '':'', CHR 0x22, CHR ''/'', CHR 0x5C, CHR ''|'',
            CHR ''?'', CHR ''*''}
      \<or> (of_char c :: nat) \<le> 0x1F)"

text \<open>Line 37: \<^verbatim>\<open>segment.replace(regex, '')\<close> with the global flag.\<close>

definition safeSegment :: "string \<Rightarrow> string" where
  "safeSegment segment = filter (\<lambda>c. \<not> unsafeChar c) segment"

text \<open>
  Lines 34 to 38. With no segment left, \<^verbatim>\<open>segments[0]\<close> is \<^verbatim>\<open>undefined\<close> and \<^verbatim>\<open>path.join\<close>
  throws a \<^verbatim>\<open>TypeError\<close>.
\<close>

definition directoryOf :: "'n env \<Rightarrow> string \<Rightarrow> js_error + string" where
  "directoryOf env url =
     (case segmentsOf url of
        [] \<Rightarrow> Inl InvalidArgType
      | hostname # rest \<Rightarrow>
          Inr (pathJoin env ([dirname env, ''images'', hostname] @ map safeSegment rest)))"

text \<open>
  The loop of lines 44 to 53 over the resolutions: the events it causes and the exception
  that ended it, if any.
\<close>

fun captureEach ::
  "'n env \<Rightarrow> string \<Rightarrow> string \<Rightarrow> string list \<Rightarrow> 'n event list \<times> js_error option" where
  "captureEach env url directory [] = ([], None)"
| "captureEach env url directory (resolution # resolutions) =
     (let dims = map (toNumber env) (split (CHR ''x'') resolution);
          width = at dims 0;
          height = at dims 1
      in case screenshot env url width height of
           None \<Rightarrow> ([Screenshot width height], Some CaptureFailed)
         | Some data \<Rightarrow>
             let filename = pathJoin env [directory, resolution @ ''.png'']
             in if writeFileSync env filename data
                then (case captureEach env url directory resolutions of
                        (evs, err) \<Rightarrow>
                          (Screenshot width height # WriteFile filename data # evs, err))
                else ([Screenshot width height], Some FsFailed))"

definition captureScreenshotsForPage ::
  "'n env \<Rightarrow> string \<Rightarrow> string list \<Rightarrow> 'n event list \<times> js_error option" where
  "captureScreenshotsForPage env url resolutions =
     (case directoryOf env url of
        Inl err \<Rightarrow> ([], Some err)
      | Inr directory \<Rightarrow>
          if ensureDir env directory
          then (case captureEach env url directory resolutions of
                  (evs, err) \<Rightarrow> (EnsureDir directory # evs, err))
          else ([], Some FsFailed))"

section \<open>The crawl: \<^verbatim>\<open>captureScreenshotsForAllPages\<close>\<close>

text \<open>
  The variables of lines 119 to 121, the events so far, and the exception that ended the
  run, if any.
\<close>

record 'n state =
  queue :: "string list"
  visited :: "string set"
  visitedCount :: nat
  trace :: "'n event list"
  thrown :: "js_error option"

definition initial :: "string \<Rightarrow> 'n state" where
  "initial url =
     \<lparr>queue = [url], visited = {}, visitedCount = 0, trace = [], thrown = None\<rparr>"

text \<open>The loop of lines 160 to 170 over the links found on the page.\<close>

fun enqueueLinks :: "string \<Rightarrow> string list \<Rightarrow> 'n state \<Rightarrow> 'n state" where
  "enqueueLinks url [] s = s"
| "enqueueLinks url (link # links) s =
     enqueueLinks url links
       (if link \<notin> visited s \<and> startsWith link url
        then s\<lparr>queue := queue s @ [link], trace := trace s @ [Push link]\<rparr>
        else s)"

text \<open>Lines 148 to 170: the page at \<open>currentUrl\<close> has loaded and shows \<open>doc\<close>.\<close>

definition processPage ::
  "'n env \<Rightarrow> string \<Rightarrow> string list \<Rightarrow> string \<Rightarrow> string \<Rightarrow> document \<Rightarrow> 'n state \<Rightarrow> 'n state" where
  "processPage env url resolutions domain currentUrl doc s =
     (case captureScreenshotsForPage env currentUrl resolutions of
        (evs, Some err) \<Rightarrow>
          s\<lparr>trace := trace s @ CapturePage currentUrl # evs, thrown := Some err\<rparr>
      | (evs, None) \<Rightarrow>
          (case getLinksFromPage env doc domain of
             Inl err \<Rightarrow>
               s\<lparr>trace := trace s @ CapturePage currentUrl # evs @ [ExtractLinks currentUrl],
                 thrown := Some err\<rparr>
           | Inr links \<Rightarrow>
               let s' = s\<lparr>trace :=
                          trace s @ CapturePage currentUrl # evs @ [ExtractLinks currentUrl]\<rparr>
               in if links = [] then s' else enqueueLinks url links s'))"

text \<open>
  One pass through the body of the \<^verbatim>\<open>while\<close> loop, lines 125 to 170. The loop enters the
  body with a non-empty queue only; the first case is there to make the function total.
\<close>

definition iteration ::
  "'n env \<Rightarrow> string \<Rightarrow> string list \<Rightarrow> string \<Rightarrow> 'n state \<Rightarrow> 'n state" where
  "iteration env url resolutions domain s =
     (case queue s of
        [] \<Rightarrow> s
      | currentUrl # rest \<Rightarrow>
          if currentUrl \<in> visited s
          then s\<lparr>queue := rest, trace := trace s @ [Shift currentUrl]\<rparr>
          else
            (case goto env currentUrl of
               None \<Rightarrow>
                 s\<lparr>queue := rest,
                   visited := insert currentUrl (visited s),
                   visitedCount := visitedCount s + 1,
                   trace := trace s @ [Shift currentUrl, Visit currentUrl, Goto currentUrl False]\<rparr>
             | Some doc \<Rightarrow>
                 processPage env url resolutions domain currentUrl doc
                   (s\<lparr>queue := rest,
                      visited := insert currentUrl (visited s),
                      visitedCount := visitedCount s + 1,
                      trace :=
                        trace s @ [Shift currentUrl, Visit currentUrl, Goto currentUrl True]\<rparr>)))"

text \<open>The loop stops when the queue is empty (line 124) or an exception has left it.\<close>

definition halted :: "'n state \<Rightarrow> bool" where
  "halted s = (queue s = [] \<or> thrown s \<noteq> None)"

text \<open>The \<^verbatim>\<open>while\<close> loop of line 124, run for at most \<open>fuel\<close> passes.\<close>

fun crawl ::
  "'n env \<Rightarrow> string \<Rightarrow> string list \<Rightarrow> string \<Rightarrow> nat \<Rightarrow> 'n state \<Rightarrow> 'n state" where
  "crawl env url resolutions domain 0 s = s"
| "crawl env url resolutions domain (Suc fuel) s =
     (if halted s then s
      else crawl env url resolutions domain fuel (iteration env url resolutions domain s))"

text \<open>
  The whole run: the final state, or \<open>None\<close> when the loop has not stopped within \<open>fuel\<close>
  passes.
\<close>

definition captureScreenshotsForAllPages ::
  "'n env \<Rightarrow> string \<Rightarrow> string list \<Rightarrow> string \<Rightarrow> nat \<Rightarrow> 'n state option" where
  "captureScreenshotsForAllPages env url resolutions domain fuel =
     (let s = crawl env url resolutions domain fuel (initial url)
      in if halted s then Some s else None)"

section \<open>Reading a trace\<close>

text \<open>The URLs of the events of one kind, in the order of the trace.\<close>

fun shiftOf :: "'n event \<Rightarrow> string list" where
  "shiftOf (Shift u) = [u]"
| "shiftOf _ = []"

fun visitOf :: "'n event \<Rightarrow> string list" where
  "visitOf (Visit u) = [u]"
| "visitOf _ = []"

fun gotoOf :: "'n event \<Rightarrow> string list" where
  "gotoOf (Goto u ok) = [u]"
| "gotoOf _ = []"

fun captureOf :: "'n event \<Rightarrow> string list" where
  "captureOf (CapturePage u) = [u]"
| "captureOf _ = []"

fun extractOf :: "'n event \<Rightarrow> string list" where
  "extractOf (ExtractLinks u) = [u]"
| "extractOf _ = []"

fun pushOf :: "'n event \<Rightarrow> string list" where
  "pushOf (Push u) = [u]"
| "pushOf _ = []"

fun writeOf :: "'n event \<Rightarrow> string list" where
  "writeOf (WriteFile f d) = [f]"
| "writeOf _ = []"

fun shotOf :: "'n event \<Rightarrow> ('n option \<times> 'n option) list" where
  "shotOf (Screenshot w h) = [(w, h)]"
| "shotOf _ = []"

definition shifted :: "'n event list \<Rightarrow> string list" where
  "shifted tr = concat (map shiftOf tr)"

definition visits :: "'n event list \<Rightarrow> string list" where
  "visits tr = concat (map visitOf tr)"

definition navigated :: "'n event list \<Rightarrow> string list" where
  "navigated tr = concat (map gotoOf tr)"

definition captured :: "'n event list \<Rightarrow> string list" where
  "captured tr = concat (map captureOf tr)"

definition extracted :: "'n event list \<Rightarrow> string list" where
  "extracted tr = concat (map extractOf tr)"

definition pushed :: "'n event list \<Rightarrow> string list" where
  "pushed tr = concat (map pushOf tr)"

definition written :: "'n event list \<Rightarrow> string list" where
  "written tr = concat (map writeOf tr)"

definition shots :: "'n event list \<Rightarrow> ('n option \<times> 'n option) list" where
  "shots tr = concat (map shotOf tr)"

text \<open>
  The events that \<^verbatim>\<open>captureScreenshotsForPage\<close> causes; none of them touches the queue or the
  visited set.
\<close>

fun captureEvent :: "'n event \<Rightarrow> bool" where
  "captureEvent (EnsureDir d) = True"
| "captureEvent (Screenshot w h) = True"
| "captureEvent (WriteFile f d) = True"
| "captureEvent _ = False"

text \<open>
  A check of a trace from left to right, with \<open>V\<close> the URLs marked visited so far: every
  \<open>Push\<close> is of a URL that is not in \<open>V\<close> at that moment and that starts with \<open>url\<close>.
\<close>

fun pushesAdmitted :: "string \<Rightarrow> string set \<Rightarrow> 'n event list \<Rightarrow> bool" where
  "pushesAdmitted url V [] = True"
| "pushesAdmitted url V (Visit u # tr) = pushesAdmitted url (insert u V) tr"
| "pushesAdmitted url V (Push l # tr) = (l \<notin> V \<and> startsWith l url \<and> pushesAdmitted url V tr)"
| "pushesAdmitted url V (e # tr) = pushesAdmitted url V tr"

text \<open>
  No URL is marked visited, navigated to, captured or searched for links twice, and every
  URL to which one of these has happened is in the visited set.
\<close>

definition processedOnce :: "'n state \<Rightarrow> bool" where
  "processedOnce s =
     (distinct (visits (trace s)) \<and> distinct (navigated (trace s)) \<and>
      distinct (captured (trace s)) \<and> distinct (extracted (trace s)) \<and>
      set (visits (trace s)) \<subseteq> visited s \<and> set (navigated (trace s)) \<subseteq> visited s \<and>
      set (captured (trace s)) \<subseteq> visited s \<and> set (extracted (trace s)) \<subseteq> visited s)"

text \<open>The inverse of \<open>split\<close>: the pieces with the separator between them.\<close>

fun unsplit :: "char \<Rightarrow> string list \<Rightarrow> string" where
  "unsplit sep [] = []"
| "unsplit sep [piece] = piece"
| "unsplit sep (piece # pieces) = piece @ sep # unsplit sep pieces"

section \<open>Example sites\<close>

text \<open>
  The results of the standard URL parser on the hrefs of the examples: a relative
  reference is resolved against the base, dot segments are removed, a host alone gets the
  path \<^verbatim>\<open>/\<close>, and \<^verbatim>\<open>//\<close> has no host and is rejected. Every page of the examples is on
  \<^verbatim>\<open>https://a.b/\<close>, so the base does not matter. The examples resolve no other href;
  the last line stands for the rejection of \<^verbatim>\<open>//\<close>.
\<close>

definition exampleURL :: "string \<Rightarrow> string \<Rightarrow> URL option" where
  "exampleURL href base =
     (if href = ''/'' then Some \<lparr>url_hostname = ''a.b'', url_href = ''https://a.b/''\<rparr>
      else if href = ''/x'' then Some \<lparr>url_hostname = ''a.b'', url_href = ''https://a.b/x''\<rparr>
      else if href = ''/y'' then Some \<lparr>url_hostname = ''a.b'', url_href = ''https://a.b/y''\<rparr>
      else if href = ''https://a.b/y''
        then Some \<lparr>url_hostname = ''a.b'', url_href = ''https://a.b/y''\<rparr>
      else if href = ''https://a.b/p/../q''
        then Some \<lparr>url_hostname = ''a.b'', url_href = ''https://a.b/q''\<rparr>
      else if href = ''https://c.d/''
        then Some \<lparr>url_hostname = ''c.d'', url_href = ''https://c.d/''\<rparr>
      else None)"

text \<open>
  A site of three pages. The seed page links twice to \<^verbatim>\<open>/x\<close> and once to \<^verbatim>\<open>/y\<close>, and has a
  mail link, an anchor without href, a link to another host and a fragment link. Page
  \<^verbatim>\<open>/x\<close> links back to the seed. Page \<^verbatim>\<open>/y\<close> is a download: \<^verbatim>\<open>page.goto\<close> throws.
\<close>

definition examplePages :: "string \<Rightarrow> document option" where
  "examplePages u =
     (if u = ''https://a.b/'' then
        Some \<lparr>location = ''https://a.b/'',
              elements = [Some ''/x'', Some ''mailto:m@a.b'', None, Some ''/x'',
                          Some ''https://c.d/'', Some ''https://a.b/y'', Some ''/x#top'']\<rparr>
      else if u = ''https://a.b/x'' then
        Some \<lparr>location = ''https://a.b/x'', elements = [Some ''/'']\<rparr>
      else None)"

text \<open>
  \<^verbatim>\<open>Number\<close> on a string of decimal digits. In the example sites \<^verbatim>\<open>path.join\<close> puts a slash
  between its arguments, which is its result on the paths of the examples (none has an
  empty, \<^verbatim>\<open>.\<close> or \<^verbatim>\<open>..\<close> component), and no screenshot or file operation fails.
\<close>

definition decimal :: "string \<Rightarrow> nat" where
  "decimal s = foldl (\<lambda>n c. 10 * n + (of_char c - 48)) 0 s"

definition exampleSite :: "nat env" where
  "exampleSite =
     \<lparr>goto = examplePages,
      newURL = exampleURL,
      toNumber = decimal,
      screenshot = (\<lambda>u w h. Some ''png''),
      pathJoin = unsplit (CHR ''/''),
      dirname = ''/app'',
      ensureDir = (\<lambda>d. True),
      writeFileSync = (\<lambda>f d. True)\<rparr>"

text \<open>
  The same site, except that page \<^verbatim>\<open>/x\<close> has an anchor with the href \<^verbatim>\<open>//\<close> and
  the seed page links to \<^verbatim>\<open>/x\<close> and \<^verbatim>\<open>/y\<close> only.
\<close>

definition brokenPages :: "string \<Rightarrow> document option" where
  "brokenPages u =
     (if u = ''https://a.b/'' then
        Some \<lparr>location = ''https://a.b/'', elements = [Some ''/x'', Some ''/y'']\<rparr>
      else if u = ''https://a.b/x'' then
        Some \<lparr>location = ''https://a.b/x'', elements = [Some ''//'']\<rparr>
      else None)"

definition brokenSite :: "nat env" where
  "brokenSite = exampleSite\<lparr>goto := brokenPages\<rparr>"

text \<open>
  The first site, except that on page \<^verbatim>\<open>/x\<close> no screenshot can be taken at the width 10 and
  the file \<^verbatim>\<open>8x6.png\<close> of that page cannot be written.
\<close>

definition failingSite :: "nat env" where
  "failingSite =
     exampleSite
       \<lparr>screenshot :=
          (\<lambda>u w h. if u = ''https://a.b/x'' \<and> w = Some 10 then None else Some ''png''),
        writeFileSync := (\<lambda>f data. f \<noteq> ''/app/images/a.b/x/8x6.png'')\<rparr>"

text \<open>A page whose only anchor has an absolute href with a dot segment.\<close>

definition dotPage :: document where
  "dotPage = \<lparr>location = ''https://a.b/'', elements = [Some ''https://a.b/p/../q'']\<rparr>"

section \<open>Properties of the string operations\<close>

lemma includes_str_iff: "includes_str s word \<longleftrightarrow> (\<exists>p q. s = p @ word @ q)"
proof (induction s)
  case Nil
  then show ?case by auto
next
  case (Cons c cs)
  have "sublist word (c # cs) \<longleftrightarrow> prefix word (c # cs) \<or> sublist word cs"
    by (rule sublist_Cons_right)
  with Cons show ?case by (simp add: sublist_def)
qed

lemma split_not_Nil: "split sep s \<noteq> []"
  by (induction s) (auto split: list.splits)

lemma unsplit_Cons: "pieces \<noteq> [] \<Longrightarrow> unsplit sep (piece # pieces) = piece @ sep # unsplit sep pieces"
  by (cases pieces) auto

lemma unsplit_Cons_Cons:
  "unsplit sep ((c # piece) # pieces) = c # unsplit sep (piece # pieces)"
  by (cases pieces) auto

lemma unsplit_split: "unsplit sep (split sep s) = s"
proof (induction s)
  case Nil
  then show ?case by simp
next
  case (Cons c cs)
  then show ?case
    by (cases "split sep cs") (auto simp: split_not_Nil unsplit_Cons unsplit_Cons_Cons)
qed

lemma split_no_sep: "piece \<in> set (split sep s) \<Longrightarrow> sep \<notin> set piece"
  by (induction s arbitrary: piece) (auto split: if_splits list.splits)

lemma split_free: "sep \<notin> set s \<Longrightarrow> split sep s = [s]"
  by (induction s) auto

lemma split_append: "sep \<notin> set w \<Longrightarrow> split sep (w @ sep # rest) = w # split sep rest"
  by (induction w) auto

lemma split_two: "sep \<notin> set w \<Longrightarrow> sep \<notin> set h \<Longrightarrow> split sep (w @ sep # h) = [w, h]"
  by (simp add: split_append split_free)

section \<open>Properties of link extraction\<close>

lemma scanElements_append:
  "scanElements f loc d (xs @ ys) links =
     (case scanElements f loc d xs links of
        Inl e \<Rightarrow> Inl e
      | Inr links' \<Rightarrow> scanElements f loc d ys links')"
  by (induction f loc d xs links rule: scanElements.induct) (auto split: option.splits)

lemma scanElements_origin:
  "scanElements f loc d as acc = Inr links \<Longrightarrow> l \<in> set links \<Longrightarrow>
   l \<in> set acc \<or>
   (\<exists>href u. Some href \<in> set as \<and> href \<noteq> [] \<and> \<not> someIllegalWord href \<and>
      f href loc = Some u \<and> url_hostname u = d \<and>
      l = (if includes_str href ''://'' then href else url_href u))"
proof (induction as arbitrary: acc)
  case Nil
  then show ?case by simp
next
  case (Cons a as)
  let ?from = "\<lambda>xs. \<exists>href u. Some href \<in> set xs \<and> href \<noteq> [] \<and> \<not> someIllegalWord href \<and>
      f href loc = Some u \<and> url_hostname u = d \<and>
      l = (if includes_str href ''://'' then href else url_href u)"
  have mono: "?from (a # as)" if "?from as"
  proof -
    from that obtain href u where h: "Some href \<in> set as" "href \<noteq> []"
      "\<not> someIllegalWord href" "f href loc = Some u" "url_hostname u = d"
      "l = (if includes_str href ''://'' then href else url_href u)"
      by blast
    from h(1) have "Some href \<in> set (a # as)" by simp
    with h(2-6) show ?thesis by blast
  qed
  show ?case
  proof (cases a)
    case None
    with Cons.prems have "scanElements f loc d as acc = Inr links" by simp
    from Cons.IH[OF this Cons.prems(2)] mono show ?thesis by blast
  next
    case (Some href)
    show ?thesis
    proof (cases "href = [] \<or> someIllegalWord href")
      case True
      with Some Cons.prems have "scanElements f loc d as acc = Inr links" by auto
      from Cons.IH[OF this Cons.prems(2)] mono show ?thesis by blast
    next
      case legal: False
      then obtain u where u: "f href loc = Some u"
        using Cons.prems(1) Some by (auto split: option.splits)
      show ?thesis
      proof (cases "url_hostname u = d")
        case False
        with Some legal u Cons.prems have "scanElements f loc d as acc = Inr links" by auto
        from Cons.IH[OF this Cons.prems(2)] mono show ?thesis by blast
      next
        case same: True
        define l' where "l' = (if includes_str href ''://'' then href else url_href u)"
        from Some legal u same Cons.prems(1)
        have "scanElements f loc d as (acc @ [l']) = Inr links"
          by (auto simp: l'_def split: if_splits)
        from Cons.IH[OF this Cons.prems(2)]
        have "l \<in> set (acc @ [l']) \<or> ?from as" .
        moreover have "l \<in> set (acc @ [l']) \<longleftrightarrow> l \<in> set acc \<or> l = l'"
          by auto
        ultimately have "l \<in> set acc \<or> l = l' \<or> ?from as" by blast
        moreover have "l = l' \<Longrightarrow> ?from (a # as)"
        proof -
          assume "l = l'"
          moreover have "Some href \<in> set (a # as)" using Some by simp
          ultimately show ?thesis using legal u same unfolding l'_def by blast
        qed
        ultimately show ?thesis using mono by blast
      qed
    qed
  qed
qed

lemma someIllegalWord_iff:
  "someIllegalWord href \<longleftrightarrow>
   (\<exists>p q word. word \<in> {''mailto:'', ''tel:'', ''javascript:'', ''#''} \<and> href = p @ word @ q)"
proof -
  have "someIllegalWord href \<longleftrightarrow> (\<exists>word \<in> set illegalWords. includes_str href word)"
    by (simp add: someIllegalWord_def list_ex_iff)
  moreover have "set illegalWords = {''mailto:'', ''tel:'', ''javascript:'', ''#''}"
    by (simp add: illegalWords_def)
  ultimately show ?thesis
    unfolding includes_str_iff by blast
qed

lemma scanElements_skip:
  assumes "a = None \<or> a = Some [] \<or> (\<exists>href. a = Some href \<and> someIllegalWord href)
     \<or> (\<exists>href u. a = Some href \<and> f href loc = Some u \<and> url_hostname u \<noteq> d)"
  shows "scanElements f loc d (pre @ a # post) links = scanElements f loc d (pre @ post) links"
proof -
  have "scanElements f loc d (a # post) acc = scanElements f loc d post acc" for acc
    using assms by auto
  then show ?thesis
    by (simp add: scanElements_append split: sum.splits)
qed


lemmas example_defs =
  exampleSite_def examplePages_def exampleURL_def brokenSite_def brokenPages_def dotPage_def
  getLinksFromPage_def someIllegalWord_def illegalWords_def

text \<open>
  C4. An anchor whose href is missing, empty, or contains \<^verbatim>\<open>mailto:\<close>, \<^verbatim>\<open>tel:\<close>,
  \<^verbatim>\<open>javascript:\<close> or \<^verbatim>\<open>#\<close> anywhere is rejected by link extraction: the extractor returns
  what it returns for the page without that anchor, so nothing is returned for it and
  nothing of it can be enqueued.
\<close>

theorem illegal_href_rejected:
  assumes "a = None \<or> a = Some [] \<or>
           (word \<in> {''mailto:'', ''tel:'', ''javascript:'', ''#''} \<and> a = Some (p @ word @ q))"
    and "elements doc = pre @ a # post"
  shows "getLinksFromPage env doc domain =
         getLinksFromPage env (doc\<lparr>elements := pre @ post\<rparr>) domain"
proof -
  from assms(1) have "a = None \<or> a = Some [] \<or> (\<exists>href. a = Some href \<and> someIllegalWord href)
      \<or> (\<exists>href u. a = Some href \<and> newURL env href (location doc) = Some u \<and>
            url_hostname u \<noteq> domain)"
    unfolding someIllegalWord_iff by blast
  from scanElements_skip[of a "newURL env" "location doc" domain, OF this] show ?thesis
    using assms(2) by (simp add: getLinksFromPage_def)
qed

theorem illegal_href_rejected_witness:
  "getLinksFromPage exampleSite
     \<lparr>location = ''https://a.b/'', elements = [Some ''/x'', Some ''/x#top'', Some ''/y'']\<rparr> ''a.b'' =
   Inr [''https://a.b/x'', ''https://a.b/y''] \<and>
   getLinksFromPage exampleSite
     \<lparr>location = ''https://a.b/'', elements = [Some ''/x'', Some ''/y'']\<rparr> ''a.b'' =
   Inr [''https://a.b/x'', ''https://a.b/y'']"
proof -
  have "getLinksFromPage exampleSite
     \<lparr>location = ''https://a.b/'', elements = [Some ''/x'', Some ''/y'']\<rparr> ''a.b'' =
     Inr [''https://a.b/x'', ''https://a.b/y'']"
    by (simp add: example_defs)
  then show ?thesis
    using illegal_href_rejected [where a = "Some ''/x#top''" and word = "''#''" and p = "''/x''"
        and q = "''top''" and pre = "[Some ''/x'']" and post = "[Some ''/y'']"
        and doc = "\<lparr>location = ''https://a.b/'',
                    elements = [Some ''/x'', Some ''/x#top'', Some ''/y'']\<rparr>"
        and env = exampleSite and domain = "''a.b''"]
    by simp
qed

text \<open>
  C5. Every link that the extractor returns comes from an href whose hostname, after
  resolution against the location of the current page, is equal to the configured domain;
  and an anchor whose resolved hostname differs from the domain contributes nothing.
\<close>

theorem admitted_hostname_is_domain:
  "(getLinksFromPage env doc domain = Inr links \<and> l \<in> set links \<longrightarrow>
      (\<exists>href u. Some href \<in> set (elements doc) \<and>
         newURL env href (location doc) = Some u \<and> url_hostname u = domain \<and>
         (l = href \<or> l = url_href u))) \<and>
   (elements doc = pre @ Some href' # post \<and>
    newURL env href' (location doc) = Some u' \<and> url_hostname u' \<noteq> domain \<longrightarrow>
      getLinksFromPage env doc domain =
      getLinksFromPage env (doc\<lparr>elements := pre @ post\<rparr>) domain)"
proof (intro conjI impI)
  assume "getLinksFromPage env doc domain = Inr links \<and> l \<in> set links"
  then have "scanElements (newURL env) (location doc) domain (elements doc) [] = Inr links"
    and "l \<in> set links"
    by (simp_all add: getLinksFromPage_def)
  from scanElements_origin[OF this]
  obtain href u where "Some href \<in> set (elements doc)"
    "newURL env href (location doc) = Some u" "url_hostname u = domain"
    "l = (if includes_str href ''://'' then href else url_href u)"
    by auto
  then show "\<exists>href u. Some href \<in> set (elements doc) \<and>
         newURL env href (location doc) = Some u \<and> url_hostname u = domain \<and>
         (l = href \<or> l = url_href u)"
    by (intro exI[of _ href] exI[of _ u]) simp
next
  assume "elements doc = pre @ Some href' # post \<and>
    newURL env href' (location doc) = Some u' \<and> url_hostname u' \<noteq> domain"
  then have el: "elements doc = pre @ Some href' # post"
    and "Some href' = None \<or> Some href' = Some [] \<or>
      (\<exists>href. Some href' = Some href \<and> someIllegalWord href) \<or>
      (\<exists>href u. Some href' = Some href \<and> newURL env href (location doc) = Some u \<and>
         url_hostname u \<noteq> domain)"
    by simp_all
  from scanElements_skip[of "Some href'" "newURL env" "location doc" domain, OF this(2)] el
  show "getLinksFromPage env doc domain =
      getLinksFromPage env (doc\<lparr>elements := pre @ post\<rparr>) domain"
    by (simp add: getLinksFromPage_def)
qed

theorem admitted_hostname_is_domain_witness:
  "getLinksFromPage exampleSite
     \<lparr>location = ''https://a.b/'', elements = [Some ''https://c.d/'', Some ''/y'']\<rparr> ''a.b'' =
   Inr [''https://a.b/y''] \<and>
   (\<exists>href u. href \<in> {''https://c.d/'', ''/y''} \<and>
      exampleURL href ''https://a.b/'' = Some u \<and> url_hostname u = ''a.b'' \<and>
      (''https://a.b/y'' = href \<or> ''https://a.b/y'' = url_href u)) \<and>
   getLinksFromPage exampleSite
     \<lparr>location = ''https://a.b/'', elements = [Some ''/y'']\<rparr> ''a.b'' = Inr [''https://a.b/y'']"
proof -
  let ?doc = "\<lparr>location = ''https://a.b/'', elements = [Some ''https://c.d/'', Some ''/y'']\<rparr>"
  have run: "getLinksFromPage exampleSite ?doc ''a.b'' = Inr [''https://a.b/y'']"
    by (simp add: example_defs)
  have foreign: "newURL exampleSite ''https://c.d/'' (location ?doc) =
      Some \<lparr>url_hostname = ''c.d'', url_href = ''https://c.d/''\<rparr>"
    by (simp add: example_defs)
  have new: "newURL exampleSite = exampleURL"
    by (simp add: exampleSite_def)
  show ?thesis
    using admitted_hostname_is_domain [where env = exampleSite and doc = ?doc
        and domain = "''a.b''" and links = "[''https://a.b/y'']" and l = "''https://a.b/y''"
        and pre = "[]" and href' = "''https://c.d/''" and post = "[Some ''/y'']"
        and u' = "\<lparr>url_hostname = ''c.d'', url_href = ''https://c.d/''\<rparr>"]
      run foreign
    by (simp add: new)
qed

text \<open>
  C9, as stated, fails: an admitted href that contains \<^verbatim>\<open>://\<close> is returned as it is
  written (line 96), not as the href of the resolved URL. On \<open>dotPage\<close> the extractor returns
  \<^verbatim>\<open>https://a.b/p/../q\<close>, while the resolved URL is \<^verbatim>\<open>https://a.b/q\<close>.
\<close>

theorem returned_link_not_resolved:
  "elements dotPage = [Some ''https://a.b/p/../q''] \<and>
   getLinksFromPage exampleSite dotPage ''a.b'' = Inr [''https://a.b/p/../q''] \<and>
   map_option url_href (newURL exampleSite ''https://a.b/p/../q'' (location dotPage)) =
     Some ''https://a.b/q''"
  by (simp add: example_defs)

text \<open>
  C9, amended. Every link that the extractor returns comes from an anchor href that
  resolves against the location of the current page: it is the href of the resolved URL
  when the href does not contain \<^verbatim>\<open>://\<close>, and the href itself, unchanged, when it does.
\<close>

theorem returned_link_form:
  assumes "getLinksFromPage env doc domain = Inr links" and "l \<in> set links"
  shows "\<exists>href u. Some href \<in> set (elements doc) \<and>
     newURL env href (location doc) = Some u \<and>
     ((\<exists>p q. href = p @ ''://'' @ q) \<longrightarrow> l = href) \<and>
     ((\<nexists>p q. href = p @ ''://'' @ q) \<longrightarrow> l = url_href u)"
proof -
  from assms have "scanElements (newURL env) (location doc) domain (elements doc) [] = Inr links"
    by (simp add: getLinksFromPage_def)
  from scanElements_origin[OF this assms(2)]
  obtain href u where h: "Some href \<in> set (elements doc)"
    "newURL env href (location doc) = Some u"
    "l = (if includes_str href ''://'' then href else url_href u)"
    by auto
  from h(3) have "((\<exists>p q. href = p @ ''://'' @ q) \<longrightarrow> l = href) \<and>
     ((\<nexists>p q. href = p @ ''://'' @ q) \<longrightarrow> l = url_href u)"
    unfolding includes_str_iff[symmetric] by simp
  with h(1,2) show ?thesis by blast
qed

theorem returned_link_form_witness:
  "getLinksFromPage exampleSite
     \<lparr>location = ''https://a.b/'', elements = [Some ''/x'']\<rparr> ''a.b'' = Inr [''https://a.b/x''] \<and>
   (\<exists>u. exampleURL ''/x'' ''https://a.b/'' = Some u \<and>
      ((\<exists>p q. ''/x'' = p @ ''://'' @ q) \<longrightarrow> ''https://a.b/x'' = ''/x'') \<and>
      ((\<nexists>p q. ''/x'' = p @ ''://'' @ q) \<longrightarrow> ''https://a.b/x'' = url_href u))"
proof -
  let ?doc = "\<lparr>location = ''https://a.b/'', elements = [Some ''/x'']\<rparr>"
  have run: "getLinksFromPage exampleSite ?doc ''a.b'' = Inr [''https://a.b/x'']"
    by (simp add: example_defs)
  have new: "newURL exampleSite = exampleURL"
    by (simp add: exampleSite_def)
  from returned_link_form [OF run, of "''https://a.b/x''"] run show ?thesis
    by (simp add: new)
qed

section \<open>Properties of the trace projections\<close>

lemmas projection_defs =
  shifted_def visits_def navigated_def captured_def extracted_def pushed_def written_def
  shots_def

lemma capture_silent:
  assumes "\<forall>e \<in> set evs. captureEvent e"
  shows "shifted evs = []" "visits evs = []" "navigated evs = []" "captured evs = []"
    "extracted evs = []" "pushed evs = []"
proof -
  have "shiftOf e = [] \<and> visitOf e = [] \<and> gotoOf e = [] \<and> captureOf e = [] \<and>
      extractOf e = [] \<and> pushOf e = []" if "captureEvent e" for e :: "'a event"
    using that by (cases e) auto
  with assms show "shifted evs = []" "visits evs = []" "navigated evs = []" "captured evs = []"
    "extracted evs = []" "pushed evs = []"
    by (auto simp: projection_defs)
qed

lemma push_projections:
  "shifted (map Push ls) = []" "visits (map Push ls) = []" "navigated (map Push ls) = []"
  "captured (map Push ls) = []" "extracted (map Push ls) = []" "pushed (map Push ls) = ls"
  "written (map Push ls) = []" "shots (map Push ls) = []"
  by (induction ls) (auto simp: projection_defs)

lemma projection_append:
  "shifted (a @ b) = shifted a @ shifted b" "visits (a @ b) = visits a @ visits b"
  "navigated (a @ b) = navigated a @ navigated b" "captured (a @ b) = captured a @ captured b"
  "extracted (a @ b) = extracted a @ extracted b" "pushed (a @ b) = pushed a @ pushed b"
  "written (a @ b) = written a @ written b" "shots (a @ b) = shots a @ shots b"
  by (simp_all add: projection_defs)

lemma projection_Cons:
  "shifted (e # b) = shiftOf e @ shifted b" "visits (e # b) = visitOf e @ visits b"
  "navigated (e # b) = gotoOf e @ navigated b" "captured (e # b) = captureOf e @ captured b"
  "extracted (e # b) = extractOf e @ extracted b" "pushed (e # b) = pushOf e @ pushed b"
  "written (e # b) = writeOf e @ written b" "shots (e # b) = shotOf e @ shots b"
  by (simp_all add: projection_defs)

lemma projection_Nil:
  "shifted [] = []" "visits [] = []" "navigated [] = []" "captured [] = []"
  "extracted [] = []" "pushed [] = []" "written [] = []" "shots [] = []"
  by (simp_all add: projection_defs)

lemmas projection_simps = projection_Nil projection_Cons projection_append push_projections

section \<open>Properties of the screenshot loop\<close>

lemma captureEach_events: "e \<in> set (fst (captureEach env u dir rs)) \<Longrightarrow> captureEvent e"
  by (induction rs arbitrary: e) (auto simp: Let_def split: option.splits if_splits prod.splits)

lemma captureEach_step:
  "captureEach env u dir (r # rs) =
     (let w = at (map (toNumber env) (split (CHR ''x'') r)) 0;
          h = at (map (toNumber env) (split (CHR ''x'') r)) 1
      in case screenshot env u w h of
           None \<Rightarrow> ([Screenshot w h], Some CaptureFailed)
         | Some data \<Rightarrow>
             if writeFileSync env (pathJoin env [dir, r @ ''.png'']) data
             then (Screenshot w h # WriteFile (pathJoin env [dir, r @ ''.png'']) data #
                     fst (captureEach env u dir rs),
                   snd (captureEach env u dir rs))
             else ([Screenshot w h], Some FsFailed))"
  by (simp add: Let_def split: option.splits prod.splits)

lemma captureEach_written:
  "written (fst (captureEach env u dir rs)) =
     map (\<lambda>r. pathJoin env [dir, r @ ''.png''])
       (take (length (written (fst (captureEach env u dir rs)))) rs)"
proof (induction rs)
  case Nil
  then show ?case by (simp add: projection_simps)
next
  case (Cons r rs)
  then show ?case
    unfolding captureEach_step Let_def
    by (simp add: projection_simps split: option.splits)
qed

lemma captureEach_shots:
  "shots (fst (captureEach env u dir rs)) =
     map (\<lambda>r. (at (map (toNumber env) (split (CHR ''x'') r)) 0,
                at (map (toNumber env) (split (CHR ''x'') r)) 1))
       (take (length (shots (fst (captureEach env u dir rs)))) rs)"
proof (induction rs)
  case Nil
  then show ?case by (simp add: projection_simps)
next
  case (Cons r rs)
  then show ?case
    unfolding captureEach_step Let_def
    by (simp add: projection_simps split: option.splits)
qed

lemma captureEach_complete:
  "snd (captureEach env u dir rs) = None \<Longrightarrow>
   length (written (fst (captureEach env u dir rs))) = length rs \<and>
   length (shots (fst (captureEach env u dir rs))) = length rs"
proof (induction rs)
  case Nil
  then show ?case by (simp add: projection_simps)
next
  case (Cons r rs)
  then show ?case
    unfolding captureEach_step Let_def
    by (auto simp: projection_simps split: option.splits if_splits)
qed

lemma captureEach_events':
  "captureEach env u dir rs = (evs, err) \<Longrightarrow> e \<in> set evs \<Longrightarrow> captureEvent e"
  using captureEach_events[of e env u dir rs] by simp

lemma captureScreenshotsForPage_events:
  assumes "captureScreenshotsForPage env u rs = (evs, err)" and "e \<in> set evs"
  shows "captureEvent e"
proof (cases "directoryOf env u")
  case (Inl a)
  with assms show ?thesis by (simp add: captureScreenshotsForPage_def)
next
  case (Inr dir)
  show ?thesis
  proof (cases "ensureDir env dir")
    case False
    with Inr assms show ?thesis by (simp add: captureScreenshotsForPage_def)
  next
    case True
    obtain evs' err' where rec: "captureEach env u dir rs = (evs', err')"
      by (cases "captureEach env u dir rs")
    with Inr True assms have "evs = EnsureDir dir # evs'"
      by (simp add: captureScreenshotsForPage_def)
    with assms(2) captureEach_events'[OF rec] show ?thesis by auto
  qed
qed


section \<open>One pass of the crawl loop\<close>

lemma enqueueLinks_eq:
  "enqueueLinks url links s =
     s\<lparr>queue := queue s @ filter (\<lambda>l. l \<notin> visited s \<and> startsWith l url) links,
       trace := trace s @ map Push (filter (\<lambda>l. l \<notin> visited s \<and> startsWith l url) links)\<rparr>"
  by (induction links arbitrary: s) auto

lemma iteration_cases [consumes 1, case_names skip fail capture_error extract_error ok]:
  assumes "queue s = u # q"
  obtains
    "u \<in> visited s"
    "iteration env url rs d s = s\<lparr>queue := q, trace := trace s @ [Shift u]\<rparr>"
  | "u \<notin> visited s" "goto env u = None"
    "iteration env url rs d s =
       s\<lparr>queue := q, visited := insert u (visited s), visitedCount := visitedCount s + 1,
         trace := trace s @ [Shift u, Visit u, Goto u False]\<rparr>"
  | doc evs err where "u \<notin> visited s" "goto env u = Some doc"
    "captureScreenshotsForPage env u rs = (evs, Some err)"
    "iteration env url rs d s =
       s\<lparr>queue := q, visited := insert u (visited s), visitedCount := visitedCount s + 1,
         trace := trace s @ [Shift u, Visit u, Goto u True, CapturePage u] @ evs,
         thrown := Some err\<rparr>"
  | doc evs err where "u \<notin> visited s" "goto env u = Some doc"
    "captureScreenshotsForPage env u rs = (evs, None)"
    "getLinksFromPage env doc d = Inl err"
    "iteration env url rs d s =
       s\<lparr>queue := q, visited := insert u (visited s), visitedCount := visitedCount s + 1,
         trace := trace s @ [Shift u, Visit u, Goto u True, CapturePage u] @ evs @
                  [ExtractLinks u],
         thrown := Some err\<rparr>"
  | doc evs links where "u \<notin> visited s" "goto env u = Some doc"
    "captureScreenshotsForPage env u rs = (evs, None)"
    "getLinksFromPage env doc d = Inr links"
    "iteration env url rs d s =
       s\<lparr>queue := q @ filter (\<lambda>l. l \<notin> insert u (visited s) \<and> startsWith l url) links,
         visited := insert u (visited s), visitedCount := visitedCount s + 1,
         trace := trace s @ [Shift u, Visit u, Goto u True, CapturePage u] @ evs @
                  ExtractLinks u #
                  map Push (filter (\<lambda>l. l \<notin> insert u (visited s) \<and> startsWith l url) links)\<rparr>"
proof (cases "u \<in> visited s")
  case True
  with assms that(1) show ?thesis by (simp add: iteration_def)
next
  case new: False
  show ?thesis
  proof (cases "goto env u")
    case None
    with assms new that(2) show ?thesis by (simp add: iteration_def)
  next
    case (Some doc)
    obtain evs cerr where cap: "captureScreenshotsForPage env u rs = (evs, cerr)"
      by (cases "captureScreenshotsForPage env u rs")
    show ?thesis
    proof (cases cerr)
      case (Some err)
      with assms new \<open>goto env u = Some doc\<close> cap that(3) show ?thesis
        by (simp add: iteration_def processPage_def)
    next
      case None
      show ?thesis
      proof (cases "getLinksFromPage env doc d")
        case (Inl err)
        with assms new \<open>goto env u = Some doc\<close> cap None that(4) show ?thesis
          by (simp add: iteration_def processPage_def)
      next
        case (Inr links)
        with assms new \<open>goto env u = Some doc\<close> cap None
        have "iteration env url rs d s =
          s\<lparr>queue := q @ filter (\<lambda>l. l \<notin> insert u (visited s) \<and> startsWith l url) links,
            visited := insert u (visited s), visitedCount := visitedCount s + 1,
            trace := trace s @ [Shift u, Visit u, Goto u True, CapturePage u] @ evs @
                  ExtractLinks u #
                  map Push (filter (\<lambda>l. l \<notin> insert u (visited s) \<and> startsWith l url) links)\<rparr>"
          by (cases "links = []")
            (simp_all add: iteration_def processPage_def enqueueLinks_eq Let_def)
        with new \<open>goto env u = Some doc\<close> cap None Inr that(5)[of doc evs links]
        show ?thesis by simp
      qed
    qed
  qed
qed

section \<open>Invariants of the crawl loop\<close>

lemma pushesAdmitted_append:
  "pushesAdmitted url V (a @ b) \<longleftrightarrow>
   pushesAdmitted url V a \<and> pushesAdmitted url (V \<union> set (visits a)) b"
  by (induction url V a rule: pushesAdmitted.induct) (simp_all add: projection_simps)

lemma pushesAdmitted_capture:
  "\<forall>e \<in> set evs. captureEvent e \<Longrightarrow> pushesAdmitted url V evs"
proof (induction evs)
  case Nil
  then show ?case by simp
next
  case (Cons e evs)
  then show ?case by (cases e) simp_all
qed

lemma pushesAdmitted_Push:
  "pushesAdmitted url V (map Push ls) \<longleftrightarrow> (\<forall>l \<in> set ls. l \<notin> V \<and> startsWith l url)"
  by (induction ls) auto

lemma iteration_summary:
  assumes "queue s = u # q"
  obtains evs where
    "trace (iteration env url rs d s) = trace s @ Shift u # evs"
    "visited (iteration env url rs d s) = insert u (visited s)"
    "queue (iteration env url rs d s) = q @ pushed evs"
    "shifted evs = []"
    "u \<in> visited s \<Longrightarrow> evs = []"
    "u \<notin> visited s \<Longrightarrow> visits evs = [u] \<and> navigated evs = [u]"
    "captured evs = [] \<or> captured evs = [u]"
    "extracted evs = [] \<or> extracted evs = [u]"
    "pushesAdmitted url (visited s) evs"
using assms
proof (cases rule: iteration_cases[where env = env and url = url and rs = rs and d = d])
  case skip
  then show ?thesis
    using that[of "[]"] by (simp add: projection_simps insert_absorb)
next
  case fail
  then show ?thesis
    using that[of "[Visit u, Goto u False]"] by (simp add: projection_simps)
next
  case (capture_error doc evs err)
  from captureScreenshotsForPage_events[OF capture_error(3)]
  have cap: "\<forall>e \<in> set evs. captureEvent e" by blast
  note silent = capture_silent[OF cap] pushesAdmitted_capture[OF cap]
  from capture_error show ?thesis
    using that[of "[Visit u, Goto u True, CapturePage u] @ evs"]
    by (simp add: projection_simps silent)
next
  case (extract_error doc evs err)
  from captureScreenshotsForPage_events[OF extract_error(3)]
  have cap: "\<forall>e \<in> set evs. captureEvent e" by blast
  note silent = capture_silent[OF cap] pushesAdmitted_capture[OF cap]
  from extract_error show ?thesis
    using that[of "[Visit u, Goto u True, CapturePage u] @ evs @ [ExtractLinks u]"]
    by (simp add: projection_simps silent pushesAdmitted_append)
next
  case (ok doc evs links)
  from captureScreenshotsForPage_events[OF ok(3)]
  have cap: "\<forall>e \<in> set evs. captureEvent e" by blast
  note silent = capture_silent[OF cap] pushesAdmitted_capture[OF cap]
  let ?new = "filter (\<lambda>l. l \<notin> insert u (visited s) \<and> startsWith l url) links"
  from ok show ?thesis
    using that[of "[Visit u, Goto u True, CapturePage u] @ evs @ ExtractLinks u # map Push ?new"]
    by (simp add: projection_simps silent pushesAdmitted_append pushesAdmitted_Push)
qed

lemma crawl_invariant:
  assumes "P s"
    and "\<And>s. P s \<Longrightarrow> \<not> halted s \<Longrightarrow> P (iteration env url rs d s)"
  shows "P (crawl env url rs d n s)"
  using assms(1)
proof (induction n arbitrary: s)
  case 0
  then show ?case by simp
next
  case (Suc n)
  then show ?case by (simp add: assms(2))
qed

lemma crawl_halted: "halted s \<Longrightarrow> crawl env url rs d n s = s"
  by (cases n) simp_all

lemma not_halted_queue: "\<not> halted s \<Longrightarrow> \<exists>u q. queue s = u # q"
  by (cases "queue s") (simp_all add: halted_def)

lemma iteration_empty: "queue s = [] \<Longrightarrow> iteration env url rs d s = s"
  by (simp add: iteration_def)

lemma processedOnce_initial: "processedOnce (initial url)"
  by (simp add: processedOnce_def initial_def projection_simps)

lemma processedOnce_iteration:
  assumes "processedOnce s"
  shows "processedOnce (iteration env url rs d s)"
proof (cases "queue s")
  case Nil
  with assms show ?thesis by (simp add: iteration_empty)
next
  case (Cons u q)
  then obtain evs where evs:
    "trace (iteration env url rs d s) = trace s @ Shift u # evs"
    "visited (iteration env url rs d s) = insert u (visited s)"
    "u \<in> visited s \<Longrightarrow> evs = []"
    "u \<notin> visited s \<Longrightarrow> visits evs = [u] \<and> navigated evs = [u]"
    "captured evs = [] \<or> captured evs = [u]"
    "extracted evs = [] \<or> extracted evs = [u]"
    by (rule iteration_summary[where env = env and url = url and rs = rs and d = d]) blast
  show ?thesis
  proof (cases "u \<in> visited s")
    case True
    with assms evs show ?thesis
      by (auto simp: processedOnce_def projection_simps)
  next
    case False
    with assms have fresh: "u \<notin> set (visits (trace s))" "u \<notin> set (navigated (trace s))"
      "u \<notin> set (captured (trace s))" "u \<notin> set (extracted (trace s))"
      by (auto simp: processedOnce_def)
    from evs(4)[OF False] have vn: "visits evs = [u]" "navigated evs = [u]" by simp_all
    from assms fresh vn evs(5,6) show ?thesis
      unfolding processedOnce_def evs(1,2) by (auto simp: projection_simps)
  qed
qed

lemma processedOnce_crawl: "processedOnce (crawl env url rs d n (initial url))"
  by (rule crawl_invariant[where P = processedOnce, OF processedOnce_initial])
    (rule processedOnce_iteration)

lemma distinct_count_list: "distinct xs \<Longrightarrow> count_list xs x \<le> 1"
  by (induction xs) (auto simp: count_list_0_iff)

lemma fifo_iteration:
  assumes "shifted (trace s) @ queue s = url # pushed (trace s)"
    and "subseq (visits (trace s)) (shifted (trace s))"
  shows "shifted (trace (iteration env url rs d s)) @ queue (iteration env url rs d s) =
           url # pushed (trace (iteration env url rs d s)) \<and>
         subseq (visits (trace (iteration env url rs d s)))
           (shifted (trace (iteration env url rs d s)))"
proof (cases "queue s")
  case Nil
  with assms show ?thesis by (simp add: iteration_empty)
next
  case (Cons u q)
  then obtain evs where evs:
    "trace (iteration env url rs d s) = trace s @ Shift u # evs"
    "queue (iteration env url rs d s) = q @ pushed evs"
    "shifted evs = []"
    "u \<in> visited s \<Longrightarrow> evs = []"
    "u \<notin> visited s \<Longrightarrow> visits evs = [u] \<and> navigated evs = [u]"
    by (rule iteration_summary[where env = env and url = url and rs = rs and d = d]) blast
  from assms(1) Cons have "shifted (trace s) @ u # q = url # pushed (trace s)" by simp
  then have "(shifted (trace s) @ u # q) @ pushed evs = (url # pushed (trace s)) @ pushed evs"
    by simp
  then have fifo: "shifted (trace (iteration env url rs d s)) @
      queue (iteration env url rs d s) = url # pushed (trace (iteration env url rs d s))"
    unfolding evs(1,2) by (simp add: projection_simps evs(3))
  have "visits evs = [] \<or> visits evs = [u]"
    using evs(4,5) by (cases "u \<in> visited s") (auto simp: projection_simps)
  then have "subseq (visits evs) [u]" by auto
  with assms(2) have "subseq (visits (trace s) @ visits evs) (shifted (trace s) @ [u])"
    by (rule list_emb_append_mono)
  then have "subseq (visits (trace (iteration env url rs d s)))
      (shifted (trace (iteration env url rs d s)))"
    unfolding evs(1) by (simp add: projection_simps evs(3))
  with fifo show ?thesis by simp
qed

lemma fifo_crawl:
  "shifted (trace (crawl env url rs d n (initial url))) @ queue (crawl env url rs d n (initial url)) =
     url # pushed (trace (crawl env url rs d n (initial url))) \<and>
   subseq (visits (trace (crawl env url rs d n (initial url))))
     (shifted (trace (crawl env url rs d n (initial url))))"
proof (rule crawl_invariant[where P = "\<lambda>s. shifted (trace s) @ queue s = url # pushed (trace s) \<and>
    subseq (visits (trace s)) (shifted (trace s))"])
  show "shifted (trace (initial url)) @ queue (initial url) = url # pushed (trace (initial url)) \<and>
    subseq (visits (trace (initial url))) (shifted (trace (initial url)))"
    by (simp add: initial_def projection_simps)
next
  fix s :: "'a state"
  assume "shifted (trace s) @ queue s = url # pushed (trace s) \<and>
    subseq (visits (trace s)) (shifted (trace s))"
  then show "shifted (trace (iteration env url rs d s)) @ queue (iteration env url rs d s) =
           url # pushed (trace (iteration env url rs d s)) \<and>
         subseq (visits (trace (iteration env url rs d s)))
           (shifted (trace (iteration env url rs d s)))"
    using fifo_iteration by blast
qed

lemma admitted_iteration:
  assumes "pushesAdmitted url {} (trace s)" and "visited s = set (visits (trace s))"
  shows "pushesAdmitted url {} (trace (iteration env url rs d s)) \<and>
         visited (iteration env url rs d s) = set (visits (trace (iteration env url rs d s)))"
proof (cases "queue s")
  case Nil
  with assms show ?thesis by (simp add: iteration_empty)
next
  case (Cons u q)
  then obtain evs where evs:
    "trace (iteration env url rs d s) = trace s @ Shift u # evs"
    "visited (iteration env url rs d s) = insert u (visited s)"
    "u \<in> visited s \<Longrightarrow> evs = []"
    "u \<notin> visited s \<Longrightarrow> visits evs = [u] \<and> navigated evs = [u]"
    "pushesAdmitted url (visited s) evs"
    by (rule iteration_summary[where env = env and url = url and rs = rs and d = d]) blast
  have "insert u (visited s) = visited s \<union> set (visits evs)"
    using evs(3,4) by (cases "u \<in> visited s") (auto simp: projection_simps)
  with assms evs(5) show ?thesis
    unfolding evs(1,2) by (simp add: pushesAdmitted_append projection_simps)
qed

lemma admitted_crawl:
  "pushesAdmitted url {} (trace (crawl env url rs d n (initial url))) \<and>
   visited (crawl env url rs d n (initial url)) =
     set (visits (trace (crawl env url rs d n (initial url))))"
proof (rule crawl_invariant[where P = "\<lambda>s. pushesAdmitted url {} (trace s) \<and>
    visited s = set (visits (trace s))"])
  show "pushesAdmitted url {} (trace (initial url)) \<and>
    visited (initial url) = set (visits (trace (initial url)))"
    by (simp add: initial_def projection_simps)
next
  fix s :: "'a state"
  assume "pushesAdmitted url {} (trace s) \<and> visited s = set (visits (trace s))"
  then show "pushesAdmitted url {} (trace (iteration env url rs d s)) \<and>
         visited (iteration env url rs d s) = set (visits (trace (iteration env url rs d s)))"
    using admitted_iteration by blast
qed

section \<open>Termination of the crawl loop\<close>

lemma crawl_stable:
  "halted (crawl env url rs d n s) \<Longrightarrow> n \<le> m \<Longrightarrow>
   crawl env url rs d m s = crawl env url rs d n s"
proof (induction n arbitrary: s m)
  case 0
  then show ?case by (simp add: crawl_halted)
next
  case (Suc n)
  then obtain m' where m: "m = Suc m'" "n \<le> m'"
    by (cases m) auto
  show ?case
  proof (cases "halted s")
    case True
    then show ?thesis by (simp add: crawl_halted)
  next
    case False
    with Suc.prems have "halted (crawl env url rs d n (iteration env url rs d s))"
      by simp
    from Suc.IH[OF this m(2)] False m(1) show ?thesis by simp
  qed
qed

lemma visited_iteration: "visited s \<subseteq> visited (iteration env url rs d s)"
proof (cases "queue s")
  case Nil
  then show ?thesis by (simp add: iteration_empty)
next
  case (Cons u q)
  then obtain evs where "visited (iteration env url rs d s) = insert u (visited s)"
    by (rule iteration_summary[where env = env and url = url and rs = rs and d = d]) blast
  then show ?thesis by auto
qed

lemma iteration_decreases:
  assumes fin: "finite S"
    and closed: "\<And>u doc links l. u \<in> S \<Longrightarrow> goto env u = Some doc \<Longrightarrow>
        getLinksFromPage env doc d = Inr links \<Longrightarrow> l \<in> set links \<Longrightarrow>
        startsWith l url \<Longrightarrow> l \<in> S"
    and sub: "set (queue s) \<subseteq> S"
    and run: "\<not> halted s"
  shows "set (queue (iteration env url rs d s)) \<subseteq> S \<and>
    (card (S - visited (iteration env url rs d s)) < card (S - visited s) \<or>
     card (S - visited (iteration env url rs d s)) = card (S - visited s) \<and>
     length (queue (iteration env url rs d s)) < length (queue s))"
proof -
  from run obtain u q where q: "queue s = u # q"
    using not_halted_queue by blast
  with sub have uS: "u \<in> S" and qS: "set q \<subseteq> S" by auto
  have less: "card (S - insert u (visited s)) < card (S - visited s)" if "u \<notin> visited s"
  proof -
    have "S - insert u (visited s) = (S - visited s) - {u}" by auto
    moreover have "u \<in> S - visited s" using uS that by simp
    moreover have "card ((S - visited s) - {u}) < card (S - visited s)"
      by (rule card_Diff1_less) (use fin uS that in auto)
    ultimately show ?thesis by simp
  qed
  from q show ?thesis
  proof (cases rule: iteration_cases[where env = env and url = url and rs = rs and d = d])
    case skip
    with q qS show ?thesis by simp
  next
    case fail
    with qS less show ?thesis by simp
  next
    case (capture_error doc evs err)
    with qS less show ?thesis by simp
  next
    case (extract_error doc evs err)
    with qS less show ?thesis by simp
  next
    case (ok doc evs links)
    have "set (filter (\<lambda>l. l \<notin> insert u (visited s) \<and> startsWith l url) links) \<subseteq> S"
      using closed[OF uS ok(2) ok(4)] by auto
    with ok qS less show ?thesis by simp
  qed
qed

lemma crawl_terminates:
  assumes fin: "finite S"
    and closed: "\<And>u doc links l. u \<in> S \<Longrightarrow> goto env u = Some doc \<Longrightarrow>
        getLinksFromPage env doc d = Inr links \<Longrightarrow> l \<in> set links \<Longrightarrow>
        startsWith l url \<Longrightarrow> l \<in> S"
    and sub: "set (queue s) \<subseteq> S"
  shows "\<exists>n. halted (crawl env url rs d n s)"
  using sub
proof (induction s rule: wf_induct_rule[OF wf_measures,
      of "[\<lambda>s. card (S - visited s), \<lambda>s. length (queue s)]"])
  case (1 s)
  show ?case
  proof (cases "halted s")
    case True
    then have "halted (crawl env url rs d 0 s)" by simp
    then show ?thesis ..
  next
    case False
    from iteration_decreases[OF fin closed "1.prems" False]
    have sub': "set (queue (iteration env url rs d s)) \<subseteq> S"
      and "(iteration env url rs d s, s) \<in>
        measures [\<lambda>s. card (S - visited s), \<lambda>s. length (queue s)]"
      by auto
    from "1.IH"[OF this(2) sub'] obtain n
      where "halted (crawl env url rs d n (iteration env url rs d s))" ..
    with False have "halted (crawl env url rs d (Suc n) s)" by simp
    then show ?thesis ..
  qed
qed

lemma no_fatal_iteration:
  assumes closed: "\<And>u doc links l. u \<in> S \<Longrightarrow> goto env u = Some doc \<Longrightarrow>
        getLinksFromPage env doc d = Inr links \<Longrightarrow> l \<in> set links \<Longrightarrow>
        startsWith l url \<Longrightarrow> l \<in> S"
    and sound: "\<And>u doc. u \<in> S \<Longrightarrow> goto env u = Some doc \<Longrightarrow>
        snd (captureScreenshotsForPage env u rs) = None \<and>
        (\<exists>links. getLinksFromPage env doc d = Inr links)"
    and sub: "set (queue s) \<subseteq> S" and ok: "thrown s = None"
  shows "set (queue (iteration env url rs d s)) \<subseteq> S \<and> thrown (iteration env url rs d s) = None"
proof (cases "queue s")
  case Nil
  with sub ok show ?thesis by (simp add: iteration_empty)
next
  case (Cons u q)
  with sub have uS: "u \<in> S" and qS: "set q \<subseteq> S" by auto
  from Cons show ?thesis
  proof (cases rule: iteration_cases[where env = env and url = url and rs = rs and d = d])
    case skip
    with qS ok show ?thesis by simp
  next
    case fail
    with qS ok show ?thesis by simp
  next
    case (capture_error doc evs err)
    with sound[OF uS capture_error(2)] show ?thesis by simp
  next
    case (extract_error doc evs err)
    with sound[OF uS extract_error(2)] show ?thesis by simp
  next
    case (ok doc evs links)
    have "set (filter (\<lambda>l. l \<notin> insert u (visited s) \<and> startsWith l url) links) \<subseteq> S"
      using closed[OF uS ok(2) ok(4)] by auto
    with ok qS \<open>thrown s = None\<close> show ?thesis by simp
  qed
qed

section \<open>Evaluation of the examples\<close>

lemma iteration_ok:
  assumes "queue s = u # q" "u \<notin> visited s" "goto env u = Some doc"
    "captureScreenshotsForPage env u rs = (evs, None)"
    "getLinksFromPage env doc d = Inr links"
  shows "iteration env url rs d s =
       s\<lparr>queue := q @ filter (\<lambda>l. l \<notin> insert u (visited s) \<and> startsWith l url) links,
         visited := insert u (visited s), visitedCount := visitedCount s + 1,
         trace := trace s @ [Shift u, Visit u, Goto u True, CapturePage u] @ evs @
                  ExtractLinks u #
                  map Push (filter (\<lambda>l. l \<notin> insert u (visited s) \<and> startsWith l url) links)\<rparr>"
  using assms(1)
  by (cases rule: iteration_cases[where env = env and url = url and rs = rs and d = d])
    (use assms in simp_all)

lemma iteration_extract_error:
  assumes "queue s = u # q" "u \<notin> visited s" "goto env u = Some doc"
    "captureScreenshotsForPage env u rs = (evs, None)"
    "getLinksFromPage env doc d = Inl err"
  shows "iteration env url rs d s =
       s\<lparr>queue := q, visited := insert u (visited s), visitedCount := visitedCount s + 1,
         trace := trace s @ [Shift u, Visit u, Goto u True, CapturePage u] @ evs @
                  [ExtractLinks u],
         thrown := Some err\<rparr>"
  using assms(1)
  by (cases rule: iteration_cases[where env = env and url = url and rs = rs and d = d])
    (use assms in simp_all)

lemma exampleSite_sel:
  "goto exampleSite = examplePages" "newURL exampleSite = exampleURL"
  "toNumber exampleSite = decimal" "screenshot exampleSite u w h = Some ''png''"
  "pathJoin exampleSite = unsplit (CHR ''/'')" "dirname exampleSite = ''/app''"
  "ensureDir exampleSite dir" "writeFileSync exampleSite f data"
  by (simp_all add: exampleSite_def)

lemma brokenSite_sel:
  "goto brokenSite = brokenPages" "newURL brokenSite = exampleURL"
  "toNumber brokenSite = decimal" "screenshot brokenSite u w h = Some ''png''"
  "pathJoin brokenSite = unsplit (CHR ''/'')" "dirname brokenSite = ''/app''"
  "ensureDir brokenSite dir" "writeFileSync brokenSite f data"
  by (simp_all add: brokenSite_def exampleSite_def)

lemma example_segments:
  "segmentsOf ''https://a.b/'' = [''a.b'']"
  "segmentsOf ''https://a.b/x'' = [''a.b'', ''x'']"
  by (simp_all add: segmentsOf_def)

lemma example_directory:
  "directoryOf exampleSite ''https://a.b/'' = Inr ''/app/images/a.b''"
  by (simp add: directoryOf_def example_segments exampleSite_sel)

lemma example_capture:
  "captureScreenshotsForPage exampleSite ''https://a.b/'' [''8x6'', ''10x7''] =
     ([EnsureDir ''/app/images/a.b'',
       Screenshot (Some 8) (Some 6), WriteFile ''/app/images/a.b/8x6.png'' ''png'',
       Screenshot (Some 10) (Some 7), WriteFile ''/app/images/a.b/10x7.png'' ''png''], None)"
  by (simp add: captureScreenshotsForPage_def example_directory exampleSite_sel decimal_def
      Let_def)

lemma example_links:
  "getLinksFromPage exampleSite
     \<lparr>location = ''https://a.b/'',
      elements = [Some ''/x'', Some ''mailto:m@a.b'', None, Some ''/x'',
                  Some ''https://c.d/'', Some ''https://a.b/y'', Some ''/x#top'']\<rparr> ''a.b'' =
   Inr [''https://a.b/x'', ''https://a.b/x'', ''https://a.b/y'']"
  by (simp add: example_defs)

lemma broken_links:
  "getLinksFromPage brokenSite
     \<lparr>location = ''https://a.b/'', elements = [Some ''/x'', Some ''/y'']\<rparr> ''a.b'' =
   Inr [''https://a.b/x'', ''https://a.b/y'']"
  "getLinksFromPage brokenSite
     \<lparr>location = ''https://a.b/x'', elements = [Some ''//'']\<rparr> ''a.b'' = Inl InvalidURL"
  by (simp_all add: example_defs)

section \<open>Claims about the crawl loop\<close>

lemma example_goto:
  "goto exampleSite ''https://a.b/'' =
     Some \<lparr>location = ''https://a.b/'',
           elements = [Some ''/x'', Some ''mailto:m@a.b'', None, Some ''/x'',
                       Some ''https://c.d/'', Some ''https://a.b/y'', Some ''/x#top'']\<rparr>"
  "goto exampleSite ''https://a.b/y'' = None"
  by (simp_all add: exampleSite_sel examplePages_def)

lemma example_capture_none:
  "captureScreenshotsForPage exampleSite ''https://a.b/'' [] = ([EnsureDir ''/app/images/a.b''], None)"
  by (simp add: captureScreenshotsForPage_def example_directory exampleSite_sel)

lemma example_first_pass:
  "crawl exampleSite ''https://a.b/'' [] ''a.b'' 1 (initial ''https://a.b/'') =
     \<lparr>queue = [''https://a.b/x'', ''https://a.b/x'', ''https://a.b/y''],
      visited = {''https://a.b/''},
      visitedCount = 1,
      trace = [Shift ''https://a.b/'', Visit ''https://a.b/'', Goto ''https://a.b/'' True,
               CapturePage ''https://a.b/'', EnsureDir ''/app/images/a.b'',
               ExtractLinks ''https://a.b/'', Push ''https://a.b/x'', Push ''https://a.b/x'',
               Push ''https://a.b/y''],
      thrown = None\<rparr>"
proof -
  have start: "queue (initial ''https://a.b/'' :: nat state) = ''https://a.b/'' # []"
    "''https://a.b/'' \<notin> visited (initial ''https://a.b/'' :: nat state)"
    by (simp_all add: initial_def)
  have "\<not> halted (initial ''https://a.b/'' :: nat state)"
    by (simp add: halted_def initial_def)
  then have "crawl exampleSite ''https://a.b/'' [] ''a.b'' 1 (initial ''https://a.b/'') =
      iteration exampleSite ''https://a.b/'' [] ''a.b'' (initial ''https://a.b/'')"
    by simp
  also have "\<dots> = \<lparr>queue = [''https://a.b/x'', ''https://a.b/x'', ''https://a.b/y''],
      visited = {''https://a.b/''},
      visitedCount = 1,
      trace = [Shift ''https://a.b/'', Visit ''https://a.b/'', Goto ''https://a.b/'' True,
               CapturePage ''https://a.b/'', EnsureDir ''/app/images/a.b'',
               ExtractLinks ''https://a.b/'', Push ''https://a.b/x'', Push ''https://a.b/x'',
               Push ''https://a.b/y''],
      thrown = None\<rparr>"
    unfolding iteration_ok[OF start example_goto(1) example_capture_none example_links]
    by (simp add: initial_def startsWith_def)
  finally show ?thesis .
qed

text \<open>
  C1. Across a run, \<^verbatim>\<open>captureScreenshotsForPage\<close> and \<^verbatim>\<open>getLinksFromPage\<close> are each called at
  most once for every URL \<open>U\<close>, however often \<open>U\<close> was enqueued; and a dequeued URL that is
  already in the visited set is discarded: the pass only removes it from the queue.
\<close>

theorem no_duplicate_processing:
  "count_list (captured (trace (crawl env url rs d n (initial url)))) U \<le> 1 \<and>
   count_list (extracted (trace (crawl env url rs d n (initial url)))) U \<le> 1 \<and>
   (queue s = u # q \<and> u \<in> visited s \<longrightarrow>
      iteration env url rs d s = s\<lparr>queue := q, trace := trace s @ [Shift u]\<rparr>)"
proof (intro conjI impI)
  have "processedOnce (crawl env url rs d n (initial url))"
    by (rule processedOnce_crawl)
  then have c: "distinct (captured (trace (crawl env url rs d n (initial url))))"
    and e: "distinct (extracted (trace (crawl env url rs d n (initial url))))"
    by (simp_all add: processedOnce_def)
  from c show "count_list (captured (trace (crawl env url rs d n (initial url)))) U \<le> 1"
    by (rule distinct_count_list)
  from e show "count_list (extracted (trace (crawl env url rs d n (initial url)))) U \<le> 1"
    by (rule distinct_count_list)
next
  assume "queue s = u # q \<and> u \<in> visited s"
  then show "iteration env url rs d s = s\<lparr>queue := q, trace := trace s @ [Shift u]\<rparr>"
    by (simp add: iteration_def)
qed

theorem no_duplicate_processing_witness:
  "count_list (captured (trace (crawl exampleSite ''https://a.b/'' [''8x6'', ''10x7''] ''a.b'' 4
     (initial ''https://a.b/'')))) ''https://a.b/x'' \<le> 1 \<and>
   count_list (extracted (trace (crawl exampleSite ''https://a.b/'' [''8x6'', ''10x7''] ''a.b'' 4
     (initial ''https://a.b/'')))) ''https://a.b/x'' \<le> 1 \<and>
   iteration exampleSite ''https://a.b/'' [''8x6'', ''10x7''] ''a.b''
     \<lparr>queue = [''https://a.b/x'', ''https://a.b/y''],
      visited = {''https://a.b/'', ''https://a.b/x''}, visitedCount = 2,
      trace = [], thrown = None\<rparr> =
     \<lparr>queue = [''https://a.b/y''],
      visited = {''https://a.b/'', ''https://a.b/x''}, visitedCount = 2,
      trace = [Shift ''https://a.b/x''], thrown = None\<rparr>"
  using no_duplicate_processing [where env = exampleSite and url = "''https://a.b/''"
      and rs = "[''8x6'', ''10x7'']" and d = "''a.b''" and n = 4 and U = "''https://a.b/x''"
      and u = "''https://a.b/x''" and q = "[''https://a.b/y'']"
      and s = "\<lparr>queue = [''https://a.b/x'', ''https://a.b/y''],
                visited = {''https://a.b/'', ''https://a.b/x''}, visitedCount = 2,
                trace = [], thrown = None\<rparr>"]
  by simp



text \<open>
  C6. A link is pushed on the queue only if it is not in the visited set at that moment
  and starts with the seed URL: \<^verbatim>\<open>enqueueLinks\<close> appends exactly the links that pass both
  tests, and in the trace of a run every \<open>Push\<close> is of a URL that starts with the seed URL
  and that no earlier \<open>Visit\<close> has marked (the visited set being the set of the URLs marked
  so far).
\<close>

theorem enqueue_admission:
  "queue (enqueueLinks url links s) =
     queue s @ filter (\<lambda>l. l \<notin> visited s \<and> prefix url l) links \<and>
   visited (crawl env url rs d n (initial url)) =
     set (visits (trace (crawl env url rs d n (initial url)))) \<and>
   (trace (crawl env url rs d n (initial url)) = pre @ Push l # post \<longrightarrow>
      l \<notin> set (visits pre) \<and> prefix url l)"
proof (intro conjI impI)
  show "queue (enqueueLinks url links s) =
     queue s @ filter (\<lambda>l. l \<notin> visited s \<and> prefix url l) links"
    by (simp add: enqueueLinks_eq startsWith_def)
next
  show "visited (crawl env url rs d n (initial url)) =
     set (visits (trace (crawl env url rs d n (initial url))))"
    using admitted_crawl by blast
next
  assume tr: "trace (crawl env url rs d n (initial url)) = pre @ Push l # post"
  have "pushesAdmitted url {} (trace (crawl env url rs d n (initial url)))"
    using admitted_crawl by blast
  then have "pushesAdmitted url (set (visits pre)) (Push l # post)"
    unfolding tr by (simp add: pushesAdmitted_append)
  then show "l \<notin> set (visits pre)" and "prefix url l"
    by (simp_all add: startsWith_def)
qed

theorem enqueue_admission_witness:
  "trace (crawl exampleSite ''https://a.b/'' [] ''a.b'' 1 (initial ''https://a.b/'')) =
     [Shift ''https://a.b/'', Visit ''https://a.b/'', Goto ''https://a.b/'' True,
      CapturePage ''https://a.b/'', EnsureDir ''/app/images/a.b'',
      ExtractLinks ''https://a.b/'', Push ''https://a.b/x''] @
     Push ''https://a.b/x'' # [Push ''https://a.b/y''] \<and>
   ''https://a.b/x'' \<notin> set (visits
     [Shift ''https://a.b/'', Visit ''https://a.b/'', Goto ''https://a.b/'' True,
      CapturePage ''https://a.b/'', EnsureDir ''/app/images/a.b'',
      ExtractLinks ''https://a.b/'', Push ''https://a.b/x'' :: nat event]) \<and>
   prefix ''https://a.b/'' ''https://a.b/x''"
proof -
  have tr: "trace (crawl exampleSite ''https://a.b/'' [] ''a.b'' 1 (initial ''https://a.b/'')) =
     [Shift ''https://a.b/'', Visit ''https://a.b/'', Goto ''https://a.b/'' True,
      CapturePage ''https://a.b/'', EnsureDir ''/app/images/a.b'',
      ExtractLinks ''https://a.b/'', Push ''https://a.b/x''] @
     Push ''https://a.b/x'' # [Push ''https://a.b/y'']"
    unfolding example_first_pass by simp
  from enqueue_admission [where env = exampleSite and url = "''https://a.b/''" and rs = "[]"
      and d = "''a.b''" and n = 1 and l = "''https://a.b/x''"
      and pre = "[Shift ''https://a.b/'', Visit ''https://a.b/'', Goto ''https://a.b/'' True,
        CapturePage ''https://a.b/'', EnsureDir ''/app/images/a.b'',
        ExtractLinks ''https://a.b/'', Push ''https://a.b/x'']"
      and post = "[Push ''https://a.b/y'']"] tr
  show ?thesis by blast
qed

text \<open>
  C10. Enqueueing never looks at the queue: \<^verbatim>\<open>enqueueLinks\<close> adds a link as many times as
  it occurs among the links of the page, whatever the queue holds already, provided the
  link is unvisited and starts with the seed URL. So the queue can hold a URL several
  times. Still no URL is marked visited twice in a run: when a URL that is already
  visited is dequeued, the pass drops it and marks nothing.
\<close>

theorem queue_duplicates:
  "count_list (queue (enqueueLinks url links s)) l =
     count_list (queue s) l +
     (if l \<notin> visited s \<and> prefix url l then count_list links l else 0) \<and>
   distinct (visits (trace (crawl env url rs d n (initial url)))) \<and>
   (queue s = u # q \<and> u \<in> visited s \<longrightarrow>
      queue (iteration env url rs d s) = q \<and>
      visited (iteration env url rs d s) = visited s \<and>
      visits (trace (iteration env url rs d s)) = visits (trace s))"
proof (intro conjI impI)
  have "count_list (filter P xs) l = (if P l then count_list xs l else 0)"
    for P and xs :: "string list"
    by (induction xs) auto
  then show "count_list (queue (enqueueLinks url links s)) l =
     count_list (queue s) l +
     (if l \<notin> visited s \<and> prefix url l then count_list links l else 0)"
    by (simp add: enqueueLinks_eq startsWith_def)
next
  have "processedOnce (crawl env url rs d n (initial url))"
    by (rule processedOnce_crawl)
  then show "distinct (visits (trace (crawl env url rs d n (initial url))))"
    by (simp add: processedOnce_def)
next
  assume a: "queue s = u # q \<and> u \<in> visited s"
  then have it: "iteration env url rs d s = s\<lparr>queue := q, trace := trace s @ [Shift u]\<rparr>"
    by (simp add: iteration_def)
  show "queue (iteration env url rs d s) = q"
    and "visited (iteration env url rs d s) = visited s"
    and "visits (trace (iteration env url rs d s)) = visits (trace s)"
    unfolding it by (simp_all add: projection_simps)
qed

theorem queue_duplicates_witness:
  "queue (crawl exampleSite ''https://a.b/'' [] ''a.b'' 1 (initial ''https://a.b/'')) =
     [''https://a.b/x'', ''https://a.b/x'', ''https://a.b/y''] \<and>
   count_list (queue (enqueueLinks ''https://a.b/''
       [''https://a.b/x'', ''https://a.b/x'', ''https://a.b/y'']
       \<lparr>queue = [''https://a.b/x''], visited = {''https://a.b/''}, visitedCount = 1,
        trace = [] :: nat event list, thrown = None\<rparr>)) ''https://a.b/x'' = 3 \<and>
   queue (iteration exampleSite ''https://a.b/'' [] ''a.b''
     \<lparr>queue = [''https://a.b/x'', ''https://a.b/y''],
      visited = {''https://a.b/'', ''https://a.b/x''}, visitedCount = 2,
      trace = [], thrown = None\<rparr>) = [''https://a.b/y'']"
proof -
  have run: "queue (crawl exampleSite ''https://a.b/'' [] ''a.b'' 1 (initial ''https://a.b/'')) =
     [''https://a.b/x'', ''https://a.b/x'', ''https://a.b/y'']"
    unfolding example_first_pass by simp
  from queue_duplicates [where env = exampleSite and url = "''https://a.b/''" and rs = "[]"
      and d = "''a.b''" and n = 1 and l = "''https://a.b/x''"
      and links = "[''https://a.b/x'', ''https://a.b/x'', ''https://a.b/y'']"
      and s = "\<lparr>queue = [''https://a.b/x''], visited = {''https://a.b/''}, visitedCount = 1,
                 trace = [], thrown = None\<rparr>"]
  have dup: "count_list (queue (enqueueLinks ''https://a.b/''
       [''https://a.b/x'', ''https://a.b/x'', ''https://a.b/y'']
       \<lparr>queue = [''https://a.b/x''], visited = {''https://a.b/''}, visitedCount = 1,
        trace = [] :: nat event list, thrown = None\<rparr>)) ''https://a.b/x'' = 3"
    by simp
  from queue_duplicates [where env = exampleSite and url = "''https://a.b/''" and rs = "[]"
      and d = "''a.b''" and u = "''https://a.b/x''" and q = "[''https://a.b/y'']"
      and s = "\<lparr>queue = [''https://a.b/x'', ''https://a.b/y''],
                 visited = {''https://a.b/'', ''https://a.b/x''}, visitedCount = 2,
                 trace = [], thrown = None\<rparr>"]
  have skip: "queue (iteration exampleSite ''https://a.b/'' [] ''a.b''
     \<lparr>queue = [''https://a.b/x'', ''https://a.b/y''],
      visited = {''https://a.b/'', ''https://a.b/x''}, visitedCount = 2,
      trace = [], thrown = None\<rparr>) = [''https://a.b/y'']"
    by simp
  from run dup skip show ?thesis by simp
qed

section \<open>Claims about the screenshots of a page\<close>

lemma captureScreenshotsForPage_cases [case_names no_segment no_directory captured]:
  obtains "segmentsOf u = []" "captureScreenshotsForPage env u rs = ([], Some InvalidArgType)"
  | hostname rest where "segmentsOf u = hostname # rest"
      "\<not> ensureDir env
          (pathJoin env ([dirname env, ''images'', hostname] @ map safeSegment rest))"
      "captureScreenshotsForPage env u rs = ([], Some FsFailed)"
  | hostname rest where "segmentsOf u = hostname # rest"
      "captureScreenshotsForPage env u rs =
         (EnsureDir (pathJoin env ([dirname env, ''images'', hostname] @ map safeSegment rest)) #
            fst (captureEach env u
              (pathJoin env ([dirname env, ''images'', hostname] @ map safeSegment rest)) rs),
          snd (captureEach env u
              (pathJoin env ([dirname env, ''images'', hostname] @ map safeSegment rest)) rs))"
proof (cases "segmentsOf u")
  case Nil
  then show ?thesis
    using that(1) by (simp add: captureScreenshotsForPage_def directoryOf_def)
next
  case (Cons hostname rest)
  let ?dir = "pathJoin env ([dirname env, ''images'', hostname] @ map safeSegment rest)"
  show ?thesis
  proof (cases "ensureDir env ?dir")
    case False
    with Cons that(2) show ?thesis
      by (simp add: captureScreenshotsForPage_def directoryOf_def)
  next
    case True
    with Cons that(3)[of hostname rest] show ?thesis
      by (simp add: captureScreenshotsForPage_def directoryOf_def split: prod.splits)
  qed
qed

lemma captureScreenshotsForPage_shots:
  assumes "captureScreenshotsForPage env u rs = (evs, err)"
  shows "shots evs =
     map (\<lambda>r. (at (map (toNumber env) (split (CHR ''x'') r)) 0,
                at (map (toNumber env) (split (CHR ''x'') r)) 1))
       (take (length (shots evs)) rs) \<and>
     (err = None \<longrightarrow> length (shots evs) = length rs)"
proof (cases rule: captureScreenshotsForPage_cases[where u = u and env = env and rs = rs])
  case no_segment
  with assms show ?thesis by (auto simp: projection_simps)
next
  case (no_directory hostname rest)
  with assms show ?thesis by (auto simp: projection_simps)
next
  case (captured hostname rest)
  let ?dir = "pathJoin env ([dirname env, ''images'', hostname] @ map safeSegment rest)"
  from captured(2) assms have evs: "evs = EnsureDir ?dir # fst (captureEach env u ?dir rs)"
    and err: "err = snd (captureEach env u ?dir rs)"
    by simp_all
  have "shots evs = shots (fst (captureEach env u ?dir rs))"
    by (simp add: evs projection_simps)
  with captureEach_shots[of env u ?dir rs] captureEach_complete[of env u ?dir rs] err
  show ?thesis by simp
qed

lemma captureScreenshotsForPage_written:
  assumes "segmentsOf u = hostname # rest"
    and "captureScreenshotsForPage env u rs = (evs, err)"
  shows "written evs =
     map (\<lambda>r. pathJoin env
                 [pathJoin env ([dirname env, ''images'', hostname] @ map safeSegment rest),
                  r @ ''.png''])
       (take (length (written evs)) rs) \<and>
     (err = None \<longrightarrow> length (written evs) = length rs)"
proof (cases rule: captureScreenshotsForPage_cases[where u = u and env = env and rs = rs])
  case no_segment
  with assms show ?thesis by simp
next
  case (no_directory hostname' rest')
  with assms show ?thesis by (auto simp: projection_simps)
next
  case (captured hostname' rest')
  with assms(1) have same: "hostname' = hostname" "rest' = rest" by simp_all
  let ?dir = "pathJoin env ([dirname env, ''images'', hostname] @ map safeSegment rest)"
  from captured(2) assms(2) have evs: "evs = EnsureDir ?dir # fst (captureEach env u ?dir rs)"
    and err: "err = snd (captureEach env u ?dir rs)"
    unfolding same by simp_all
  have "written evs = written (fst (captureEach env u ?dir rs))"
    by (simp add: evs projection_simps)
  with captureEach_written[of env u ?dir rs] captureEach_complete[of env u ?dir rs] err
  show ?thesis by simp
qed


text \<open>
  C8. The files of a page are written, in the order of the resolutions, each at the path
  that \<^verbatim>\<open>path.join\<close> makes of the directory and the resolution string followed by \<^verbatim>\<open>.png\<close>;
  the directory is what \<^verbatim>\<open>path.join\<close> makes of \<^verbatim>\<open>__dirname\<close>, \<^verbatim>\<open>images\<close>, the first segment of
  the URL (taken as the hostname, unchanged) and the other segments, sanitized. The
  segments are the pieces of the URL between slashes that are neither empty nor
  \<^verbatim>\<open>https:\<close>; sanitizing removes the characters \<^verbatim>\<open>< > : " / \ | ? *\<close> and those below \<^verbatim>\<open>0x20\<close>.
  All of this is a function of the URL and the resolution, so the same pair gives the same
  path. A URL without any segment has no hostname and \<^verbatim>\<open>path.join\<close> throws.
\<close>

theorem output_path:
  "(segmentsOf url = hostname # rest \<and> captureScreenshotsForPage env url rs = (evs, err) \<longrightarrow>
      written evs =
        map (\<lambda>r. pathJoin env
                    [pathJoin env ([dirname env, ''images'', hostname] @ map safeSegment rest),
                     r @ ''.png''])
          (take (length (written evs)) rs) \<and>
      (err = None \<longrightarrow> length (written evs) = length rs)) \<and>
   segmentsOf url =
     filter (\<lambda>segment. segment \<noteq> [] \<and> segment \<noteq> ''https:'') (split (CHR ''/'') url) \<and>
   unsplit (CHR ''/'') (split (CHR ''/'') url) = url \<and>
   (\<forall>piece \<in> set (split (CHR ''/'') url). CHR ''/'' \<notin> set piece) \<and>
   safeSegment segment =
     filter (\<lambda>c. c \<notin> {CHR ''<'', CHR ''>'', CHR '':'', CHR 0x22, CHR ''/'', CHR 0x5C,
                        CHR ''|'', CHR ''?'', CHR ''*''} \<and> (32::nat) \<le> of_char c) segment \<and>
   (segmentsOf url = [] \<longrightarrow>
      captureScreenshotsForPage env url rs = ([], Some InvalidArgType))"
proof (intro conjI impI ballI)
  assume a: "segmentsOf url = hostname # rest \<and>
    captureScreenshotsForPage env url rs = (evs, err)"
  then have seg: "segmentsOf url = hostname # rest"
    and cap: "captureScreenshotsForPage env url rs = (evs, err)"
    by simp_all
  from captureScreenshotsForPage_written[OF seg cap]
  show "written evs =
        map (\<lambda>r. pathJoin env
                    [pathJoin env ([dirname env, ''images'', hostname] @ map safeSegment rest),
                     r @ ''.png''])
          (take (length (written evs)) rs)"
    by blast
  assume "err = None"
  with captureScreenshotsForPage_written[OF seg cap] show "length (written evs) = length rs"
    by blast
next
  show "segmentsOf url =
     filter (\<lambda>segment. segment \<noteq> [] \<and> segment \<noteq> ''https:'') (split (CHR ''/'') url)"
    by (simp add: segmentsOf_def)
next
  show "unsplit (CHR ''/'') (split (CHR ''/'') url) = url"
    by (rule unsplit_split)
next
  fix piece
  assume "piece \<in> set (split (CHR ''/'') url)"
  then show "CHR ''/'' \<notin> set piece"
    by (rule split_no_sep)
next
  have "(\<not> unsafeChar c) =
    (c \<notin> {CHR ''<'', CHR ''>'', CHR '':'', CHR 0x22, CHR ''/'', CHR 0x5C,
                        CHR ''|'', CHR ''?'', CHR ''*''} \<and> (32::nat) \<le> of_char c)" for c
  proof -
    have "(\<not> (of_char c :: nat) \<le> 0x1F) = ((32::nat) \<le> of_char c)" by arith
    then show ?thesis unfolding unsafeChar_def by simp
  qed
  then show "safeSegment segment =
     filter (\<lambda>c. c \<notin> {CHR ''<'', CHR ''>'', CHR '':'', CHR 0x22, CHR ''/'', CHR 0x5C,
                        CHR ''|'', CHR ''?'', CHR ''*''} \<and> (32::nat) \<le> of_char c) segment"
    unfolding safeSegment_def by simp
next
  assume "segmentsOf url = []"
  then show "captureScreenshotsForPage env url rs = ([], Some InvalidArgType)"
    by (simp add: captureScreenshotsForPage_def directoryOf_def)
qed

theorem output_path_witness:
  "segmentsOf ''https://a.b/x?q=1'' = [''a.b'', ''x?q=1''] \<and>
   snd (captureScreenshotsForPage exampleSite ''https://a.b/x?q=1'' [''8x6'']) = None \<and>
   written (fst (captureScreenshotsForPage exampleSite ''https://a.b/x?q=1'' [''8x6''])) =
     [''/app/images/a.b/xq=1/8x6.png''] \<and>
   captureScreenshotsForPage exampleSite ''https://'' [''8x6''] = ([], Some InvalidArgType)"
proof -
  have seg: "segmentsOf ''https://a.b/x?q=1'' = [''a.b'', ''x?q=1'']"
    and none: "segmentsOf ''https://'' = []"
    by (simp_all add: segmentsOf_def)
  have safe: "safeSegment ''x?q=1'' = ''xq=1''"
    by (simp add: safeSegment_def unsafeChar_def)
  have dir: "directoryOf exampleSite ''https://a.b/x?q=1'' = Inr ''/app/images/a.b/xq=1''"
    by (simp add: directoryOf_def seg safe exampleSite_sel)
  have ok: "snd (captureScreenshotsForPage exampleSite ''https://a.b/x?q=1'' [''8x6'']) = None"
    by (simp add: captureScreenshotsForPage_def dir exampleSite_sel Let_def)
  have pair: "captureScreenshotsForPage exampleSite ''https://a.b/x?q=1'' [''8x6''] =
      (fst (captureScreenshotsForPage exampleSite ''https://a.b/x?q=1'' [''8x6'']), None)"
    using ok by (simp add: prod_eq_iff)
  note inst = output_path [where env = exampleSite and rs = "[''8x6'']"]
  let ?evs = "fst (captureScreenshotsForPage exampleSite ''https://a.b/x?q=1'' [''8x6''])"
  let ?path = "\<lambda>r. pathJoin exampleSite
      [pathJoin exampleSite
         ([dirname exampleSite, ''images'', ''a.b''] @ map safeSegment [''x?q=1'']),
       r @ ''.png'']"
  from inst [where url = "''https://a.b/x?q=1''" and hostname = "''a.b''" and rest = "[''x?q=1'']"
      and evs = ?evs and err = None] seg pair
  have eq: "written ?evs = map ?path (take (length (written ?evs)) [''8x6''])"
    and len: "length (written ?evs) = length [''8x6'']"
    by blast+
  have w: "written ?evs = [''/app/images/a.b/xq=1/8x6.png'']"
    by (subst eq) (simp add: len exampleSite_sel safe)
  from inst [where url = "''https://''"] none
  have "captureScreenshotsForPage exampleSite ''https://'' [''8x6''] = ([], Some InvalidArgType)"
    by simp
  with seg ok w show ?thesis by simp
qed

section \<open>Claims about termination\<close>

lemma broken_goto:
  "goto brokenSite ''https://a.b/'' =
     Some \<lparr>location = ''https://a.b/'', elements = [Some ''/x'', Some ''/y'']\<rparr>"
  "goto brokenSite ''https://a.b/x'' =
     Some \<lparr>location = ''https://a.b/x'', elements = [Some ''//'']\<rparr>"
  "goto brokenSite ''https://a.b/y'' = None"
  by (simp_all add: brokenSite_sel brokenPages_def)

lemma broken_capture:
  "captureScreenshotsForPage brokenSite ''https://a.b/'' [] =
     ([EnsureDir ''/app/images/a.b''], None)"
  "captureScreenshotsForPage brokenSite ''https://a.b/x'' [] =
     ([EnsureDir ''/app/images/a.b/x''], None)"
  by (simp_all add: captureScreenshotsForPage_def directoryOf_def example_segments
      brokenSite_sel safeSegment_def unsafeChar_def)

lemma broken_first_pass:
  "iteration brokenSite ''https://a.b/'' [] ''a.b'' (initial ''https://a.b/'') =
     \<lparr>queue = [''https://a.b/x'', ''https://a.b/y''],
      visited = {''https://a.b/''},
      visitedCount = 1,
      trace = [Shift ''https://a.b/'', Visit ''https://a.b/'', Goto ''https://a.b/'' True,
               CapturePage ''https://a.b/'', EnsureDir ''/app/images/a.b'',
               ExtractLinks ''https://a.b/'', Push ''https://a.b/x'', Push ''https://a.b/y''],
      thrown = None\<rparr>"
proof -
  have start: "queue (initial ''https://a.b/'' :: nat state) = ''https://a.b/'' # []"
    "''https://a.b/'' \<notin> visited (initial ''https://a.b/'' :: nat state)"
    by (simp_all add: initial_def)
  show ?thesis
    unfolding iteration_ok[OF start broken_goto(1) broken_capture(1) broken_links(1)]
    by (simp add: initial_def startsWith_def)
qed

lemma broken_second_pass:
  "iteration brokenSite ''https://a.b/'' [] ''a.b''
     \<lparr>queue = [''https://a.b/x'', ''https://a.b/y''],
      visited = {''https://a.b/''},
      visitedCount = 1,
      trace = [Shift ''https://a.b/'', Visit ''https://a.b/'', Goto ''https://a.b/'' True,
               CapturePage ''https://a.b/'', EnsureDir ''/app/images/a.b'',
               ExtractLinks ''https://a.b/'', Push ''https://a.b/x'', Push ''https://a.b/y''],
      thrown = None\<rparr> =
     \<lparr>queue = [''https://a.b/y''],
      visited = {''https://a.b/x'', ''https://a.b/''},
      visitedCount = 2,
      trace = [Shift ''https://a.b/'', Visit ''https://a.b/'', Goto ''https://a.b/'' True,
               CapturePage ''https://a.b/'', EnsureDir ''/app/images/a.b'',
               ExtractLinks ''https://a.b/'', Push ''https://a.b/x'', Push ''https://a.b/y'',
               Shift ''https://a.b/x'', Visit ''https://a.b/x'', Goto ''https://a.b/x'' True,
               CapturePage ''https://a.b/x'', EnsureDir ''/app/images/a.b/x'',
               ExtractLinks ''https://a.b/x''],
      thrown = Some InvalidURL\<rparr>"
  (is "iteration _ _ _ _ ?s1 = ?s2")
proof -
  have start: "queue ?s1 = ''https://a.b/x'' # [''https://a.b/y'']"
    "''https://a.b/x'' \<notin> visited ?s1"
    by simp_all
  show ?thesis
    unfolding iteration_extract_error[OF start broken_goto(2) broken_capture(2) broken_links(2)]
    by simp
qed

lemma broken_run:
  "crawl brokenSite ''https://a.b/'' [] ''a.b'' (Suc (Suc k)) (initial ''https://a.b/'') =
     \<lparr>queue = [''https://a.b/y''],
      visited = {''https://a.b/x'', ''https://a.b/''},
      visitedCount = 2,
      trace = [Shift ''https://a.b/'', Visit ''https://a.b/'', Goto ''https://a.b/'' True,
               CapturePage ''https://a.b/'', EnsureDir ''/app/images/a.b'',
               ExtractLinks ''https://a.b/'', Push ''https://a.b/x'', Push ''https://a.b/y'',
               Shift ''https://a.b/x'', Visit ''https://a.b/x'', Goto ''https://a.b/x'' True,
               CapturePage ''https://a.b/x'', EnsureDir ''/app/images/a.b/x'',
               ExtractLinks ''https://a.b/x''],
      thrown = Some InvalidURL\<rparr>"
  (is "crawl _ _ _ _ _ ?s0 = ?s2")
proof -
  let ?s1 = "iteration brokenSite ''https://a.b/'' [] ''a.b'' ?s0"
  have h0: "halted ?s0 = False"
    by (simp add: halted_def initial_def)
  have h1: "halted ?s1 = False"
    unfolding broken_first_pass by (simp add: halted_def)
  have s2: "iteration brokenSite ''https://a.b/'' [] ''a.b'' ?s1 = ?s2"
    unfolding broken_first_pass by (rule broken_second_pass)
  have h2: "halted ?s2"
    by (simp add: halted_def)
  have "crawl brokenSite ''https://a.b/'' [] ''a.b'' (Suc (Suc k)) ?s0 =
      crawl brokenSite ''https://a.b/'' [] ''a.b'' k
        (iteration brokenSite ''https://a.b/'' [] ''a.b'' ?s1)"
    by (simp only: crawl.simps h0 h1 if_False)
  also have "\<dots> = ?s2"
    unfolding s2 using h2 by (rule crawl_halted)
  finally show ?thesis .
qed

text \<open>
  C2, as stated, fails: an exception of \<^verbatim>\<open>getLinksFromPage\<close> or
  \<^verbatim>\<open>captureScreenshotsForPage\<close> is not caught and ends the run with the rest of the frontier
  still in the queue. On \<open>brokenSite\<close>, a site of three URLs, the anchor \<^verbatim>\<open>//\<close> of page
  \<^verbatim>\<open>/x\<close> makes \<^verbatim>\<open>new URL\<close> throw while \<^verbatim>\<open>/y\<close> is still queued: the run stops after two passes
  with that exception, and with no amount of fuel does it end with an empty queue.
\<close>

theorem crawl_aborts_with_frontier:
  "map_option queue
     (captureScreenshotsForAllPages brokenSite ''https://a.b/'' [] ''a.b'' 2) =
     Some [''https://a.b/y''] \<and>
   map_option thrown
     (captureScreenshotsForAllPages brokenSite ''https://a.b/'' [] ''a.b'' 2) =
     Some (Some InvalidURL) \<and>
   \<not> (\<exists>fuel s. captureScreenshotsForAllPages brokenSite ''https://a.b/'' [] ''a.b'' fuel = Some s \<and>
          queue s = [])"
proof (intro conjI notI)
  have two: "(2::nat) = Suc (Suc 0)" by simp
  show "map_option queue
     (captureScreenshotsForAllPages brokenSite ''https://a.b/'' [] ''a.b'' 2) =
     Some [''https://a.b/y'']"
    unfolding captureScreenshotsForAllPages_def two broken_run
    by (simp add: halted_def)
  show "map_option thrown
     (captureScreenshotsForAllPages brokenSite ''https://a.b/'' [] ''a.b'' 2) =
     Some (Some InvalidURL)"
    unfolding captureScreenshotsForAllPages_def two broken_run
    by (simp add: halted_def)
next
  assume "\<exists>fuel s. captureScreenshotsForAllPages brokenSite ''https://a.b/'' [] ''a.b'' fuel = Some s \<and>
          queue s = []"
  then obtain fuel s
    where run: "captureScreenshotsForAllPages brokenSite ''https://a.b/'' [] ''a.b'' fuel = Some s"
      and empty: "queue s = []"
    by blast
  consider "fuel = 0" | "fuel = Suc 0" | k where "fuel = Suc (Suc k)"
    by (cases fuel rule: nat.exhaust; cases "fuel - 1" rule: nat.exhaust) auto
  then show False
  proof cases
    case 1
    with run show False
      by (simp add: captureScreenshotsForAllPages_def halted_def initial_def)
  next
    case 2
    have "\<not> halted (initial ''https://a.b/'' :: nat state)"
      by (simp add: halted_def initial_def)
    with 2 run show False
      by (simp add: captureScreenshotsForAllPages_def broken_first_pass halted_def)
  next
    case 3
    with run have "queue s = [''https://a.b/y'']"
      unfolding captureScreenshotsForAllPages_def 3 broken_run
      by (auto simp: halted_def)
    with empty show False by simp
  qed
qed

section \<open>The screenshots of a page, exactly\<close>

lemma captureEach_prefix:
  assumes "\<forall>r\<in>set pre. \<exists>data.
      screenshot env u (at (map (toNumber env) (split (CHR ''x'') r)) 0)
        (at (map (toNumber env) (split (CHR ''x'') r)) 1) = Some data \<and>
      writeFileSync env (pathJoin env [dir, r @ ''.png'']) data"
  shows "captureEach env u dir (pre @ rest) =
     (concat (map (\<lambda>r.
          [Screenshot (at (map (toNumber env) (split (CHR ''x'') r)) 0)
             (at (map (toNumber env) (split (CHR ''x'') r)) 1),
           WriteFile (pathJoin env [dir, r @ ''.png''])
             (the (screenshot env u (at (map (toNumber env) (split (CHR ''x'') r)) 0)
                (at (map (toNumber env) (split (CHR ''x'') r)) 1)))]) pre) @
        fst (captureEach env u dir rest),
      snd (captureEach env u dir rest))"
  using assms
proof (induction pre)
  case Nil
  then show ?case by simp
next
  case (Cons r pre)
  then obtain data where r:
    "screenshot env u (at (map (toNumber env) (split (CHR ''x'') r)) 0)
        (at (map (toNumber env) (split (CHR ''x'') r)) 1) = Some data"
    "writeFileSync env (pathJoin env [dir, r @ ''.png'']) data"
    by auto
  from Cons have IH: "captureEach env u dir (pre @ rest) =
     (concat (map (\<lambda>r.
          [Screenshot (at (map (toNumber env) (split (CHR ''x'') r)) 0)
             (at (map (toNumber env) (split (CHR ''x'') r)) 1),
           WriteFile (pathJoin env [dir, r @ ''.png''])
             (the (screenshot env u (at (map (toNumber env) (split (CHR ''x'') r)) 0)
                (at (map (toNumber env) (split (CHR ''x'') r)) 1)))]) pre) @
        fst (captureEach env u dir rest),
      snd (captureEach env u dir rest))"
    by simp
  have "captureEach env u dir ((r # pre) @ rest) = captureEach env u dir (r # pre @ rest)"
    by simp
  also have "\<dots> =
     (Screenshot (at (map (toNumber env) (split (CHR ''x'') r)) 0)
             (at (map (toNumber env) (split (CHR ''x'') r)) 1) #
      WriteFile (pathJoin env [dir, r @ ''.png'']) data #
      fst (captureEach env u dir (pre @ rest)), snd (captureEach env u dir (pre @ rest)))"
    unfolding captureEach_step[of env u dir r "pre @ rest"] Let_def using r by simp
  finally show ?case
    unfolding IH using r(1) by simp
qed

lemma captureEach_fails:
  "screenshot env u (at (map (toNumber env) (split (CHR ''x'') r)) 0)
        (at (map (toNumber env) (split (CHR ''x'') r)) 1) = None \<Longrightarrow>
   captureEach env u dir (r # post) =
     ([Screenshot (at (map (toNumber env) (split (CHR ''x'') r)) 0)
             (at (map (toNumber env) (split (CHR ''x'') r)) 1)], Some CaptureFailed)"
  "screenshot env u (at (map (toNumber env) (split (CHR ''x'') r)) 0)
        (at (map (toNumber env) (split (CHR ''x'') r)) 1) = Some data \<Longrightarrow>
   \<not> writeFileSync env (pathJoin env [dir, r @ ''.png'']) data \<Longrightarrow>
   captureEach env u dir (r # post) =
     ([Screenshot (at (map (toNumber env) (split (CHR ''x'') r)) 0)
             (at (map (toNumber env) (split (CHR ''x'') r)) 1)], Some FsFailed)"
  unfolding captureEach_step Let_def by simp_all

lemma captureScreenshotsForPage_directory:
  "directoryOf env u = Inr dir \<Longrightarrow> ensureDir env dir \<Longrightarrow>
   captureScreenshotsForPage env u rs =
     (EnsureDir dir # fst (captureEach env u dir rs), snd (captureEach env u dir rs))"
  by (simp add: captureScreenshotsForPage_def split: prod.splits)

lemma shots_iteration:
  assumes "thrown s = None"
    and "shots (trace s) =
      concat (map (\<lambda>u. map (\<lambda>r. (at (map (toNumber env) (split (CHR ''x'') r)) 0,
                                   at (map (toNumber env) (split (CHR ''x'') r)) 1)) rs)
                (captured (trace s)))"
    and "thrown (iteration env url rs d s) = None"
  shows "shots (trace (iteration env url rs d s)) =
      concat (map (\<lambda>u. map (\<lambda>r. (at (map (toNumber env) (split (CHR ''x'') r)) 0,
                                   at (map (toNumber env) (split (CHR ''x'') r)) 1)) rs)
                (captured (trace (iteration env url rs d s))))"
proof (cases "queue s")
  case Nil
  with assms show ?thesis by (simp add: iteration_empty)
next
  case (Cons u q)
  then show ?thesis
  proof (cases rule: iteration_cases[where env = env and url = url and rs = rs and d = d])
    case skip
    with assms(2) show ?thesis by (simp add: projection_simps)
  next
    case fail
    with assms(2) show ?thesis by (simp add: projection_simps)
  next
    case (capture_error doc evs err)
    with assms(3) show ?thesis by simp
  next
    case (extract_error doc evs err)
    with assms(3) show ?thesis by simp
  next
    case (ok doc evs links)
    from captureScreenshotsForPage_events[OF ok(3)]
    have cap: "\<forall>e \<in> set evs. captureEvent e" by blast
    from captureScreenshotsForPage_shots[OF ok(3)]
    have eq: "shots evs = map (\<lambda>r. (at (map (toNumber env) (split (CHR ''x'') r)) 0,
                                   at (map (toNumber env) (split (CHR ''x'') r)) 1))
        (take (length (shots evs)) rs)"
      and len: "length (shots evs) = length rs"
      by blast+
    from eq[unfolded len]
    have "shots evs = map (\<lambda>r. (at (map (toNumber env) (split (CHR ''x'') r)) 0,
                                   at (map (toNumber env) (split (CHR ''x'') r)) 1)) rs"
      by simp
    with assms(2) show ?thesis
      unfolding ok(5) by (simp add: projection_simps capture_silent[OF cap])
  qed
qed

lemma shots_crawl:
  "thrown (crawl env url rs d n (initial url)) = None \<longrightarrow>
   shots (trace (crawl env url rs d n (initial url))) =
      concat (map (\<lambda>u. map (\<lambda>r. (at (map (toNumber env) (split (CHR ''x'') r)) 0,
                                   at (map (toNumber env) (split (CHR ''x'') r)) 1)) rs)
                (captured (trace (crawl env url rs d n (initial url)))))"
proof (rule crawl_invariant[where P = "\<lambda>s. thrown s = None \<longrightarrow> shots (trace s) =
      concat (map (\<lambda>u. map (\<lambda>r. (at (map (toNumber env) (split (CHR ''x'') r)) 0,
                                   at (map (toNumber env) (split (CHR ''x'') r)) 1)) rs)
                (captured (trace s)))"])
  show "thrown (initial url :: 'a state) = None \<longrightarrow> shots (trace (initial url :: 'a state)) =
      concat (map (\<lambda>u. map (\<lambda>r. (at (map (toNumber env) (split (CHR ''x'') r)) 0,
                                   at (map (toNumber env) (split (CHR ''x'') r)) 1)) rs)
                (captured (trace (initial url :: 'a state))))"
    by (simp add: initial_def projection_simps)
next
  fix s :: "'a state"
  assume inv: "thrown s = None \<longrightarrow> shots (trace s) =
      concat (map (\<lambda>u. map (\<lambda>r. (at (map (toNumber env) (split (CHR ''x'') r)) 0,
                                   at (map (toNumber env) (split (CHR ''x'') r)) 1)) rs)
                (captured (trace s)))"
    and run: "\<not> halted s"
  from run have none: "thrown s = None" by (simp add: halted_def)
  with inv shots_iteration[OF none, where env = env and url = url and rs = rs and d = d]
  show "thrown (iteration env url rs d s) = None \<longrightarrow>
    shots (trace (iteration env url rs d s)) =
      concat (map (\<lambda>u. map (\<lambda>r. (at (map (toNumber env) (split (CHR ''x'') r)) 0,
                                   at (map (toNumber env) (split (CHR ''x'') r)) 1)) rs)
                (captured (trace (iteration env url rs d s))))"
    by blast
qed

section \<open>Claims about the order of the crawl\<close>

lemma failingSite_sel:
  "goto failingSite = examplePages" "newURL failingSite = exampleURL"
  "toNumber failingSite = decimal"
  "screenshot failingSite u w h =
     (if u = ''https://a.b/x'' \<and> w = Some 10 then None else Some ''png'')"
  "pathJoin failingSite = unsplit (CHR ''/'')" "dirname failingSite = ''/app''"
  "ensureDir failingSite dir"
  "writeFileSync failingSite f data = (f \<noteq> ''/app/images/a.b/x/8x6.png'')"
  by (simp_all add: failingSite_def exampleSite_def)

lemma failing_directory:
  "directoryOf failingSite ''https://a.b/'' = Inr ''/app/images/a.b''"
  "directoryOf failingSite ''https://a.b/x'' = Inr ''/app/images/a.b/x''"
  by (simp_all add: directoryOf_def example_segments failingSite_sel safeSegment_def
      unsafeChar_def)

lemma captured_iteration:
  assumes "thrown s = None"
    and "captured (trace s) = filter (\<lambda>u. goto env u \<noteq> None) (visits (trace s))"
    and "thrown (iteration env url rs d s) = None"
  shows "captured (trace (iteration env url rs d s)) =
    filter (\<lambda>u. goto env u \<noteq> None) (visits (trace (iteration env url rs d s)))"
proof (cases "queue s")
  case Nil
  with assms show ?thesis by (simp add: iteration_empty)
next
  case (Cons u q)
  then show ?thesis
  proof (cases rule: iteration_cases[where env = env and url = url and rs = rs and d = d])
    case skip
    with assms(2) show ?thesis by (simp add: projection_simps)
  next
    case fail
    with assms(2) show ?thesis by (simp add: projection_simps)
  next
    case (capture_error doc evs err)
    with assms(3) show ?thesis by simp
  next
    case (extract_error doc evs err)
    with assms(3) show ?thesis by simp
  next
    case (ok doc evs links)
    from captureScreenshotsForPage_events[OF ok(3)]
    have cap: "\<forall>e \<in> set evs. captureEvent e" by blast
    from assms(2) ok(2) show ?thesis
      unfolding ok(5) by (simp add: projection_simps capture_silent[OF cap])
  qed
qed

lemma captured_crawl:
  "thrown (crawl env url rs d n (initial url)) = None \<longrightarrow>
   captured (trace (crawl env url rs d n (initial url))) =
     filter (\<lambda>u. goto env u \<noteq> None) (visits (trace (crawl env url rs d n (initial url))))"
proof (rule crawl_invariant[where P = "\<lambda>s. thrown s = None \<longrightarrow> captured (trace s) =
     filter (\<lambda>u. goto env u \<noteq> None) (visits (trace s))"])
  show "thrown (initial url :: 'a state) = None \<longrightarrow> captured (trace (initial url :: 'a state)) =
     filter (\<lambda>u. goto env u \<noteq> None) (visits (trace (initial url :: 'a state)))"
    by (simp add: initial_def projection_simps)
next
  fix s :: "'a state"
  assume inv: "thrown s = None \<longrightarrow> captured (trace s) =
     filter (\<lambda>u. goto env u \<noteq> None) (visits (trace s))"
    and run: "\<not> halted s"
  from run have none: "thrown s = None" by (simp add: halted_def)
  with inv captured_iteration[OF none, where env = env and url = url and rs = rs and d = d]
  show "thrown (iteration env url rs d s) = None \<longrightarrow>
    captured (trace (iteration env url rs d s)) =
     filter (\<lambda>u. goto env u \<noteq> None) (visits (trace (iteration env url rs d s)))"
    by blast
qed

text \<open>
  C7. The queue is first in, first out. In every run the URLs dequeued so far followed
  by the queue are the seed followed by the URLs pushed so far, in the order of pushing,
  and the pages are visited in the order in which they are dequeued. A pass takes the URL
  at the head; when the page loads and nothing raises, the pass appends the admitted links
  at the tail, in the order of the anchors. For one page, \<^verbatim>\<open>captureScreenshot\<close> is called for
  the resolutions in the configured order, each with the width and height read from its
  resolution string, and each screenshot is written before the next one is taken: for all
  resolutions when every screenshot and write succeeds, and up to the first one that
  fails otherwise. In a run that has raised nothing, the captured pages are the visited
  pages that loaded, in the order of visiting, and the screenshots taken are those of all
  resolutions, in the configured order, for each captured page in turn.
\<close>

theorem fifo_and_capture_order:
  "let R = crawl env url rs d n (initial url);
       W = (\<lambda>r. at (map (toNumber env) (split (CHR ''x'') r)) 0);
       H = (\<lambda>r. at (map (toNumber env) (split (CHR ''x'') r)) 1);
       F = (\<lambda>r. pathJoin env [dir, r @ ''.png'']);
       taken = (\<lambda>r. \<exists>data. screenshot env u (W r) (H r) = Some data \<and>
                       writeFileSync env (F r) data);
       events = (\<lambda>r. [Screenshot (W r) (H r),
                       WriteFile (F r) (the (screenshot env u (W r) (H r)))])
   in
     shifted (trace R) @ queue R = url # pushed (trace R) \<and>
     subseq (visits (trace R)) (shifted (trace R)) \<and>
     (thrown R = None \<longrightarrow>
        captured (trace R) = filter (\<lambda>page. goto env page \<noteq> None) (visits (trace R)) \<and>
        shots (trace R) = concat (map (\<lambda>page. map (\<lambda>r. (W r, H r)) rs) (captured (trace R)))) \<and>
     (queue s = u # q \<longrightarrow>
        (\<exists>evs. trace (iteration env url rs d s) = trace s @ Shift u # evs \<and>
           shifted evs = [] \<and> queue (iteration env url rs d s) = q @ pushed evs)) \<and>
     (queue s = u # q \<and> u \<notin> visited s \<and> goto env u = Some doc \<and>
      captureScreenshotsForPage env u rs = (evs, None) \<and>
      getLinksFromPage env doc d = Inr links \<longrightarrow>
        iteration env url rs d s =
          s\<lparr>queue := q @ filter (\<lambda>l. l \<notin> insert u (visited s) \<and> prefix url l) links,
            visited := insert u (visited s),
            visitedCount := visitedCount s + 1,
            trace := trace s @ [Shift u, Visit u, Goto u True, CapturePage u] @ evs @
              ExtractLinks u #
              map Push (filter (\<lambda>l. l \<notin> insert u (visited s) \<and> prefix url l) links)\<rparr>) \<and>
     (captureScreenshotsForPage env u rs = (evs, err) \<longrightarrow>
        shots evs = map (\<lambda>r. (W r, H r)) (take (length (shots evs)) rs) \<and>
        (err = None \<longrightarrow> length (shots evs) = length rs)) \<and>
     (directoryOf env u = Inr dir \<and> ensureDir env dir \<and> (\<forall>r\<in>set rs. taken r) \<longrightarrow>
        captureScreenshotsForPage env u rs =
          (EnsureDir dir # concat (map events rs), None)) \<and>
     (directoryOf env u = Inr dir \<and> ensureDir env dir \<and> rs = pre @ r # post \<and>
      (\<forall>r\<in>set pre. taken r) \<and> screenshot env u (W r) (H r) = None \<longrightarrow>
        captureScreenshotsForPage env u rs =
          (EnsureDir dir # concat (map events pre) @ [Screenshot (W r) (H r)],
           Some CaptureFailed)) \<and>
     (directoryOf env u = Inr dir \<and> ensureDir env dir \<and> rs = pre @ r # post \<and>
      (\<forall>r\<in>set pre. taken r) \<and> screenshot env u (W r) (H r) = Some data \<and>
      \<not> writeFileSync env (F r) data \<longrightarrow>
        captureScreenshotsForPage env u rs =
          (EnsureDir dir # concat (map events pre) @ [Screenshot (W r) (H r)],
           Some FsFailed))"
  unfolding Let_def
proof (intro conjI impI)
  show "shifted (trace (crawl env url rs d n (initial url))) @
     queue (crawl env url rs d n (initial url)) =
     url # pushed (trace (crawl env url rs d n (initial url)))"
    using fifo_crawl by blast
  show "subseq (visits (trace (crawl env url rs d n (initial url))))
     (shifted (trace (crawl env url rs d n (initial url))))"
    using fifo_crawl by blast
next
  assume none: "thrown (crawl env url rs d n (initial url)) = None"
  with captured_crawl[of env url rs d n]
  show "captured (trace (crawl env url rs d n (initial url))) =
    filter (\<lambda>page. goto env page \<noteq> None) (visits (trace (crawl env url rs d n (initial url))))"
    by blast
  from none shots_crawl[of env url rs d n]
  show "shots (trace (crawl env url rs d n (initial url))) =
    concat (map (\<lambda>page. map (\<lambda>r. (at (map (toNumber env) (split (CHR ''x'') r)) 0,
                                     at (map (toNumber env) (split (CHR ''x'') r)) 1)) rs)
      (captured (trace (crawl env url rs d n (initial url)))))"
    by blast
next
  assume "queue s = u # q"
  then obtain evs where "trace (iteration env url rs d s) = trace s @ Shift u # evs"
    "queue (iteration env url rs d s) = q @ pushed evs" "shifted evs = []"
    by (rule iteration_summary[where env = env and url = url and rs = rs and d = d]) blast
  then show "\<exists>evs. trace (iteration env url rs d s) = trace s @ Shift u # evs \<and>
         shifted evs = [] \<and> queue (iteration env url rs d s) = q @ pushed evs"
    by blast
next
  assume "queue s = u # q \<and> u \<notin> visited s \<and> goto env u = Some doc \<and>
      captureScreenshotsForPage env u rs = (evs, None) \<and>
      getLinksFromPage env doc d = Inr links"
  then have "queue s = u # q" "u \<notin> visited s" "goto env u = Some doc"
    "captureScreenshotsForPage env u rs = (evs, None)"
    "getLinksFromPage env doc d = Inr links"
    by simp_all
  from iteration_ok[OF this, of url]
  show "iteration env url rs d s =
          s\<lparr>queue := q @ filter (\<lambda>l. l \<notin> insert u (visited s) \<and> prefix url l) links,
            visited := insert u (visited s),
            visitedCount := visitedCount s + 1,
            trace := trace s @ [Shift u, Visit u, Goto u True, CapturePage u] @ evs @
              ExtractLinks u #
              map Push (filter (\<lambda>l. l \<notin> insert u (visited s) \<and> prefix url l) links)\<rparr>"
    by (simp add: startsWith_def)
next
  assume cap: "captureScreenshotsForPage env u rs = (evs, err)"
  from captureScreenshotsForPage_shots[OF cap]
  show "shots evs =
        map (\<lambda>r. (at (map (toNumber env) (split (CHR ''x'') r)) 0,
                   at (map (toNumber env) (split (CHR ''x'') r)) 1))
          (take (length (shots evs)) rs)"
    by blast
  assume "err = None"
  with captureScreenshotsForPage_shots[OF cap] show "length (shots evs) = length rs"
    by blast
next
  assume a: "directoryOf env u = Inr dir \<and> ensureDir env dir \<and>
    (\<forall>r\<in>set rs. \<exists>data.
        screenshot env u (at (map (toNumber env) (split (CHR ''x'') r)) 0)
          (at (map (toNumber env) (split (CHR ''x'') r)) 1) = Some data \<and>
        writeFileSync env (pathJoin env [dir, r @ ''.png'']) data)"
  then have all: "\<forall>r\<in>set rs. \<exists>data.
        screenshot env u (at (map (toNumber env) (split (CHR ''x'') r)) 0)
          (at (map (toNumber env) (split (CHR ''x'') r)) 1) = Some data \<and>
        writeFileSync env (pathJoin env [dir, r @ ''.png'']) data"
    by blast
  from a have page: "captureScreenshotsForPage env u rs =
     (EnsureDir dir # fst (captureEach env u dir rs), snd (captureEach env u dir rs))"
    by (simp add: captureScreenshotsForPage_directory)
  show "captureScreenshotsForPage env u rs =
    (EnsureDir dir #
     concat (map (\<lambda>r.
        [Screenshot (at (map (toNumber env) (split (CHR ''x'') r)) 0)
           (at (map (toNumber env) (split (CHR ''x'') r)) 1),
         WriteFile (pathJoin env [dir, r @ ''.png''])
           (the (screenshot env u (at (map (toNumber env) (split (CHR ''x'') r)) 0)
              (at (map (toNumber env) (split (CHR ''x'') r)) 1)))]) rs), None)"
    unfolding page using captureEach_prefix[OF all, of "[]"] by simp
next
  assume a: "directoryOf env u = Inr dir \<and> ensureDir env dir \<and> rs = pre @ r # post \<and>
    (\<forall>r\<in>set pre. \<exists>data.
        screenshot env u (at (map (toNumber env) (split (CHR ''x'') r)) 0)
          (at (map (toNumber env) (split (CHR ''x'') r)) 1) = Some data \<and>
        writeFileSync env (pathJoin env [dir, r @ ''.png'']) data) \<and>
    screenshot env u (at (map (toNumber env) (split (CHR ''x'') r)) 0)
      (at (map (toNumber env) (split (CHR ''x'') r)) 1) = None"
  then have all: "\<forall>r\<in>set pre. \<exists>data.
        screenshot env u (at (map (toNumber env) (split (CHR ''x'') r)) 0)
          (at (map (toNumber env) (split (CHR ''x'') r)) 1) = Some data \<and>
        writeFileSync env (pathJoin env [dir, r @ ''.png'']) data"
    and rs: "rs = pre @ r # post"
    and none: "screenshot env u (at (map (toNumber env) (split (CHR ''x'') r)) 0)
      (at (map (toNumber env) (split (CHR ''x'') r)) 1) = None"
    by blast+
  from a have page: "captureScreenshotsForPage env u rs =
     (EnsureDir dir # fst (captureEach env u dir rs), snd (captureEach env u dir rs))"
    by (simp add: captureScreenshotsForPage_directory)
  show "captureScreenshotsForPage env u rs =
    (EnsureDir dir #
     concat (map (\<lambda>r.
        [Screenshot (at (map (toNumber env) (split (CHR ''x'') r)) 0)
           (at (map (toNumber env) (split (CHR ''x'') r)) 1),
         WriteFile (pathJoin env [dir, r @ ''.png''])
           (the (screenshot env u (at (map (toNumber env) (split (CHR ''x'') r)) 0)
              (at (map (toNumber env) (split (CHR ''x'') r)) 1)))]) pre) @
     [Screenshot (at (map (toNumber env) (split (CHR ''x'') r)) 0)
        (at (map (toNumber env) (split (CHR ''x'') r)) 1)], Some CaptureFailed)"
    unfolding page
    unfolding rs captureEach_prefix[OF all] captureEach_fails(1)[OF none] by simp
next
  assume a: "directoryOf env u = Inr dir \<and> ensureDir env dir \<and> rs = pre @ r # post \<and>
    (\<forall>r\<in>set pre. \<exists>data.
        screenshot env u (at (map (toNumber env) (split (CHR ''x'') r)) 0)
          (at (map (toNumber env) (split (CHR ''x'') r)) 1) = Some data \<and>
        writeFileSync env (pathJoin env [dir, r @ ''.png'']) data) \<and>
    screenshot env u (at (map (toNumber env) (split (CHR ''x'') r)) 0)
      (at (map (toNumber env) (split (CHR ''x'') r)) 1) = Some data \<and>
    \<not> writeFileSync env (pathJoin env [dir, r @ ''.png'']) data"
  then have all: "\<forall>r\<in>set pre. \<exists>data.
        screenshot env u (at (map (toNumber env) (split (CHR ''x'') r)) 0)
          (at (map (toNumber env) (split (CHR ''x'') r)) 1) = Some data \<and>
        writeFileSync env (pathJoin env [dir, r @ ''.png'']) data"
    and rs: "rs = pre @ r # post"
    and some: "screenshot env u (at (map (toNumber env) (split (CHR ''x'') r)) 0)
      (at (map (toNumber env) (split (CHR ''x'') r)) 1) = Some data"
    and wr: "\<not> writeFileSync env (pathJoin env [dir, r @ ''.png'']) data"
    by blast+
  from a have page: "captureScreenshotsForPage env u rs =
     (EnsureDir dir # fst (captureEach env u dir rs), snd (captureEach env u dir rs))"
    by (simp add: captureScreenshotsForPage_directory)
  show "captureScreenshotsForPage env u rs =
    (EnsureDir dir #
     concat (map (\<lambda>r.
        [Screenshot (at (map (toNumber env) (split (CHR ''x'') r)) 0)
           (at (map (toNumber env) (split (CHR ''x'') r)) 1),
         WriteFile (pathJoin env [dir, r @ ''.png''])
           (the (screenshot env u (at (map (toNumber env) (split (CHR ''x'') r)) 0)
              (at (map (toNumber env) (split (CHR ''x'') r)) 1)))]) pre) @
     [Screenshot (at (map (toNumber env) (split (CHR ''x'') r)) 0)
        (at (map (toNumber env) (split (CHR ''x'') r)) 1)], Some FsFailed)"
    unfolding page
    unfolding rs captureEach_prefix[OF all] captureEach_fails(2)[OF some wr] by simp
qed


theorem fifo_and_capture_order_witness:
  "captureScreenshotsForPage exampleSite ''https://a.b/'' [''8x6'', ''10x7''] =
     ([EnsureDir ''/app/images/a.b'',
       Screenshot (Some 8) (Some 6), WriteFile ''/app/images/a.b/8x6.png'' ''png'',
       Screenshot (Some 10) (Some 7), WriteFile ''/app/images/a.b/10x7.png'' ''png''], None) \<and>
   iteration exampleSite ''https://a.b/'' [''8x6'', ''10x7''] ''a.b'' (initial ''https://a.b/'') =
     \<lparr>queue = [''https://a.b/x'', ''https://a.b/x'', ''https://a.b/y''],
      visited = {''https://a.b/''},
      visitedCount = 1,
      trace = [Shift ''https://a.b/'', Visit ''https://a.b/'', Goto ''https://a.b/'' True,
               CapturePage ''https://a.b/'', EnsureDir ''/app/images/a.b'',
               Screenshot (Some 8) (Some 6), WriteFile ''/app/images/a.b/8x6.png'' ''png'',
               Screenshot (Some 10) (Some 7), WriteFile ''/app/images/a.b/10x7.png'' ''png'',
               ExtractLinks ''https://a.b/'', Push ''https://a.b/x'', Push ''https://a.b/x'',
               Push ''https://a.b/y''],
      thrown = None\<rparr> \<and>
   shots (trace (crawl exampleSite ''https://a.b/'' [''8x6'', ''10x7''] ''a.b'' 1
     (initial ''https://a.b/''))) = [(Some 8, Some 6), (Some 10, Some 7)] \<and>
   captureScreenshotsForPage failingSite ''https://a.b/x'' [''7x5'', ''10x7''] =
     ([EnsureDir ''/app/images/a.b/x'',
       Screenshot (Some 7) (Some 5), WriteFile ''/app/images/a.b/x/7x5.png'' ''png'',
       Screenshot (Some 10) (Some 7)], Some CaptureFailed) \<and>
   captureScreenshotsForPage failingSite ''https://a.b/x'' [''8x6'', ''10x7''] =
     ([EnsureDir ''/app/images/a.b/x'', Screenshot (Some 8) (Some 6)], Some FsFailed)"
  (is "?cap \<and> ?pass \<and> ?shots \<and> ?noshot \<and> ?nowrite")
proof -
  from fifo_and_capture_order [where env = exampleSite and u = "''https://a.b/''"
      and rs = "[''8x6'', ''10x7'']" and dir = "''/app/images/a.b''", unfolded Let_def,
      THEN conjunct2, THEN conjunct2, THEN conjunct2, THEN conjunct2,
      THEN conjunct2, THEN conjunct2, THEN conjunct1]
  have cap: ?cap
    by (simp add: example_directory exampleSite_sel decimal_def)
  have start: "queue (initial ''https://a.b/'' :: nat state) = ''https://a.b/'' # []"
    "''https://a.b/'' \<notin> visited (initial ''https://a.b/'' :: nat state)"
    by (simp_all add: initial_def)
  from fifo_and_capture_order [where env = exampleSite and url = "''https://a.b/''"
      and d = "''a.b''" and rs = "[''8x6'', ''10x7'']" and u = "''https://a.b/''"
      and s = "initial ''https://a.b/''" and q = "[]"
      and doc = "\<lparr>location = ''https://a.b/'',
           elements = [Some ''/x'', Some ''mailto:m@a.b'', None, Some ''/x'',
                       Some ''https://c.d/'', Some ''https://a.b/y'', Some ''/x#top'']\<rparr>"
      and evs = "[EnsureDir ''/app/images/a.b'',
       Screenshot (Some 8) (Some 6), WriteFile ''/app/images/a.b/8x6.png'' ''png'',
       Screenshot (Some 10) (Some 7), WriteFile ''/app/images/a.b/10x7.png'' ''png'']"
      and links = "[''https://a.b/x'', ''https://a.b/x'', ''https://a.b/y'']",
      unfolded Let_def,
      THEN conjunct2, THEN conjunct2, THEN conjunct2, THEN conjunct2, THEN conjunct1,
      THEN mp, OF conjI [OF start(1) conjI [OF start(2) conjI [OF example_goto(1)
        conjI [OF cap example_links]]]]]
  have pass: ?pass
    by (simp add: initial_def)
  have "\<not> halted (initial ''https://a.b/'' :: nat state)"
    by (simp add: halted_def initial_def)
  then have run: "crawl exampleSite ''https://a.b/'' [''8x6'', ''10x7''] ''a.b'' 1
      (initial ''https://a.b/'') =
      iteration exampleSite ''https://a.b/'' [''8x6'', ''10x7''] ''a.b'' (initial ''https://a.b/'')"
    by simp
  from fifo_and_capture_order [where env = exampleSite and url = "''https://a.b/''"
      and d = "''a.b''" and rs = "[''8x6'', ''10x7'']" and n = 1, unfolded Let_def,
      THEN conjunct2, THEN conjunct2, THEN conjunct1]
  have shots: ?shots
    unfolding run pass by (simp add: projection_simps exampleSite_sel decimal_def)
  from fifo_and_capture_order [where env = failingSite and u = "''https://a.b/x''"
      and rs = "[''7x5'', ''10x7'']" and dir = "''/app/images/a.b/x''"
      and pre = "[''7x5'']" and r = "''10x7''" and post = "[]", unfolded Let_def,
      THEN conjunct2, THEN conjunct2, THEN conjunct2, THEN conjunct2,
      THEN conjunct2, THEN conjunct2, THEN conjunct2, THEN conjunct1]
  have noshot: ?noshot
    by (simp add: failing_directory failingSite_sel decimal_def)
  from fifo_and_capture_order [where env = failingSite and u = "''https://a.b/x''"
      and rs = "[''8x6'', ''10x7'']" and dir = "''/app/images/a.b/x''"
      and pre = "[]" and r = "''8x6''" and post = "[''10x7'']" and data = "''png''",
      unfolded Let_def,
      THEN conjunct2, THEN conjunct2, THEN conjunct2, THEN conjunct2,
      THEN conjunct2, THEN conjunct2, THEN conjunct2, THEN conjunct2]
  have nowrite: ?nowrite
    by (simp add: failing_directory failingSite_sel decimal_def)
  from cap pass shots noshot nowrite show ?thesis by blast
qed

section \<open>Exceptions in a run\<close>

lemma raised_iteration:
  assumes "thrown s = None"
  shows "(thrown (iteration env url rs d s) = None \<longrightarrow>
           (\<forall>page\<in>visited s. \<forall>doc. goto env page = Some doc \<longrightarrow>
              snd (captureScreenshotsForPage env page rs) = None \<and>
              (\<exists>links. getLinksFromPage env doc d = Inr links)) \<longrightarrow>
           (\<forall>page\<in>visited (iteration env url rs d s). \<forall>doc. goto env page = Some doc \<longrightarrow>
              snd (captureScreenshotsForPage env page rs) = None \<and>
              (\<exists>links. getLinksFromPage env doc d = Inr links))) \<and>
         (\<forall>err. thrown (iteration env url rs d s) = Some err \<longrightarrow>
            visits (trace (iteration env url rs d s)) \<noteq> [] \<and>
            (\<exists>doc. goto env (last (visits (trace (iteration env url rs d s)))) = Some doc \<and>
               (snd (captureScreenshotsForPage env
                  (last (visits (trace (iteration env url rs d s)))) rs) = Some err \<or>
                snd (captureScreenshotsForPage env
                  (last (visits (trace (iteration env url rs d s)))) rs) = None \<and>
                getLinksFromPage env doc d = Inl err)))"
proof (cases "queue s")
  case Nil
  with assms show ?thesis by (simp add: iteration_empty)
next
  case (Cons u q)
  then show ?thesis
  proof (cases rule: iteration_cases[where env = env and url = url and rs = rs and d = d])
    case skip
    with assms show ?thesis by (simp add: insert_absorb)
  next
    case fail
    with assms show ?thesis by simp
  next
    case (capture_error doc evs err)
    from captureScreenshotsForPage_events[OF capture_error(3)]
    have cap: "\<forall>e \<in> set evs. captureEvent e" by blast
    from capture_error(2,3) show ?thesis
      unfolding capture_error(4) by (simp add: projection_simps capture_silent[OF cap])
  next
    case (extract_error doc evs err)
    from captureScreenshotsForPage_events[OF extract_error(3)]
    have cap: "\<forall>e \<in> set evs. captureEvent e" by blast
    from extract_error(2,3,4) show ?thesis
      unfolding extract_error(5) by (simp add: projection_simps capture_silent[OF cap])
  next
    case (ok doc evs links)
    with assms show ?thesis by simp
  qed
qed

lemma raised_crawl:
  "(thrown (crawl env url rs d n (initial url)) = None \<longrightarrow>
      (\<forall>page\<in>visited (crawl env url rs d n (initial url)). \<forall>doc.
         goto env page = Some doc \<longrightarrow>
           snd (captureScreenshotsForPage env page rs) = None \<and>
           (\<exists>links. getLinksFromPage env doc d = Inr links))) \<and>
   (\<forall>err. thrown (crawl env url rs d n (initial url)) = Some err \<longrightarrow>
      visits (trace (crawl env url rs d n (initial url))) \<noteq> [] \<and>
      (\<exists>doc. goto env (last (visits (trace (crawl env url rs d n (initial url))))) = Some doc \<and>
         (snd (captureScreenshotsForPage env
            (last (visits (trace (crawl env url rs d n (initial url))))) rs) = Some err \<or>
          snd (captureScreenshotsForPage env
            (last (visits (trace (crawl env url rs d n (initial url))))) rs) = None \<and>
          getLinksFromPage env doc d = Inl err)))"
proof (rule crawl_invariant[where P = "\<lambda>s.
   (thrown s = None \<longrightarrow>
      (\<forall>page\<in>visited s. \<forall>doc.
         goto env page = Some doc \<longrightarrow>
           snd (captureScreenshotsForPage env page rs) = None \<and>
           (\<exists>links. getLinksFromPage env doc d = Inr links))) \<and>
   (\<forall>err. thrown s = Some err \<longrightarrow>
      visits (trace s) \<noteq> [] \<and>
      (\<exists>doc. goto env (last (visits (trace s))) = Some doc \<and>
         (snd (captureScreenshotsForPage env (last (visits (trace s))) rs) = Some err \<or>
          snd (captureScreenshotsForPage env (last (visits (trace s))) rs) = None \<and>
          getLinksFromPage env doc d = Inl err)))"])
  show "(thrown (initial url :: 'a state) = None \<longrightarrow>
      (\<forall>page\<in>visited (initial url :: 'a state). \<forall>doc.
         goto env page = Some doc \<longrightarrow>
           snd (captureScreenshotsForPage env page rs) = None \<and>
           (\<exists>links. getLinksFromPage env doc d = Inr links))) \<and>
   (\<forall>err. thrown (initial url :: 'a state) = Some err \<longrightarrow>
      visits (trace (initial url :: 'a state)) \<noteq> [] \<and>
      (\<exists>doc. goto env (last (visits (trace (initial url :: 'a state)))) = Some doc \<and>
         (snd (captureScreenshotsForPage env
            (last (visits (trace (initial url :: 'a state)))) rs) = Some err \<or>
          snd (captureScreenshotsForPage env
            (last (visits (trace (initial url :: 'a state)))) rs) = None \<and>
          getLinksFromPage env doc d = Inl err)))"
    by (simp add: initial_def)
next
  fix s :: "'a state"
  assume inv: "(thrown s = None \<longrightarrow>
      (\<forall>page\<in>visited s. \<forall>doc.
         goto env page = Some doc \<longrightarrow>
           snd (captureScreenshotsForPage env page rs) = None \<and>
           (\<exists>links. getLinksFromPage env doc d = Inr links))) \<and>
   (\<forall>err. thrown s = Some err \<longrightarrow>
      visits (trace s) \<noteq> [] \<and>
      (\<exists>doc. goto env (last (visits (trace s))) = Some doc \<and>
         (snd (captureScreenshotsForPage env (last (visits (trace s))) rs) = Some err \<or>
          snd (captureScreenshotsForPage env (last (visits (trace s))) rs) = None \<and>
          getLinksFromPage env doc d = Inl err)))"
    and run: "\<not> halted s"
  from run have none: "thrown s = None" by (simp add: halted_def)
  from raised_iteration[OF none, of env url rs d] inv none
  show "(thrown (iteration env url rs d s) = None \<longrightarrow>
      (\<forall>page\<in>visited (iteration env url rs d s). \<forall>doc.
         goto env page = Some doc \<longrightarrow>
           snd (captureScreenshotsForPage env page rs) = None \<and>
           (\<exists>links. getLinksFromPage env doc d = Inr links))) \<and>
   (\<forall>err. thrown (iteration env url rs d s) = Some err \<longrightarrow>
      visits (trace (iteration env url rs d s)) \<noteq> [] \<and>
      (\<exists>doc. goto env (last (visits (trace (iteration env url rs d s)))) = Some doc \<and>
         (snd (captureScreenshotsForPage env
            (last (visits (trace (iteration env url rs d s)))) rs) = Some err \<or>
          snd (captureScreenshotsForPage env
            (last (visits (trace (iteration env url rs d s)))) rs) = None \<and>
          getLinksFromPage env doc d = Inl err)))"
    by blast
qed

section \<open>Claims about the end of a run\<close>

lemma failing_goto:
  "goto failingSite ''https://a.b/'' =
     Some \<lparr>location = ''https://a.b/'',
           elements = [Some ''/x'', Some ''mailto:m@a.b'', None, Some ''/x'',
                       Some ''https://c.d/'', Some ''https://a.b/y'', Some ''/x#top'']\<rparr>"
  "goto failingSite ''https://a.b/x'' =
     Some \<lparr>location = ''https://a.b/x'', elements = [Some ''/'']\<rparr>"
  by (simp_all add: failingSite_sel examplePages_def)

lemma failing_links:
  "getLinksFromPage failingSite
     \<lparr>location = ''https://a.b/'',
      elements = [Some ''/x'', Some ''mailto:m@a.b'', None, Some ''/x'',
                  Some ''https://c.d/'', Some ''https://a.b/y'', Some ''/x#top'']\<rparr> ''a.b'' =
   Inr [''https://a.b/x'', ''https://a.b/x'', ''https://a.b/y'']"
  by (simp add: getLinksFromPage_def failingSite_sel exampleURL_def someIllegalWord_def
      illegalWords_def)

lemma failing_capture:
  "captureScreenshotsForPage failingSite ''https://a.b/'' [''10x7''] =
     ([EnsureDir ''/app/images/a.b'', Screenshot (Some 10) (Some 7),
       WriteFile ''/app/images/a.b/10x7.png'' ''png''], None)"
  "captureScreenshotsForPage failingSite ''https://a.b/x'' [''10x7''] =
     ([EnsureDir ''/app/images/a.b/x'', Screenshot (Some 10) (Some 7)], Some CaptureFailed)"
  by (simp_all add: captureScreenshotsForPage_def failing_directory failingSite_sel
      decimal_def Let_def)

lemma failing_first_pass:
  "iteration failingSite ''https://a.b/'' [''10x7''] ''a.b'' (initial ''https://a.b/'') =
     \<lparr>queue = [''https://a.b/x'', ''https://a.b/x'', ''https://a.b/y''],
      visited = {''https://a.b/''},
      visitedCount = 1,
      trace = [Shift ''https://a.b/'', Visit ''https://a.b/'', Goto ''https://a.b/'' True,
               CapturePage ''https://a.b/'', EnsureDir ''/app/images/a.b'',
               Screenshot (Some 10) (Some 7), WriteFile ''/app/images/a.b/10x7.png'' ''png'',
               ExtractLinks ''https://a.b/'', Push ''https://a.b/x'', Push ''https://a.b/x'',
               Push ''https://a.b/y''],
      thrown = None\<rparr>"
proof -
  have start: "queue (initial ''https://a.b/'' :: nat state) = ''https://a.b/'' # []"
    "''https://a.b/'' \<notin> visited (initial ''https://a.b/'' :: nat state)"
    by (simp_all add: initial_def)
  show ?thesis
    unfolding iteration_ok[OF start failing_goto(1) failing_capture(1) failing_links]
    by (simp add: initial_def startsWith_def)
qed

text \<open>
  C2, amended. Let \<open>S\<close> be a finite set of URLs that holds the seed and, for each of its
  pages, every extracted link that starts with the seed. Then the loop stops after
  finitely many passes, and more fuel does not change the result: either the queue is
  empty or an exception has ended the run; when no page of \<open>S\<close> raises one, the run ends
  with the queue empty and no exception. The visited set only grows, and a pass puts the
  dequeued URL into it. An exception of \<^verbatim>\<open>captureScreenshotsForPage\<close> or of
  \<^verbatim>\<open>getLinksFromPage\<close> is not caught: the pass in which it is raised records it and leaves
  the rest of the frontier in the queue, with no link of that page enqueued, and the run
  ends in that state whatever the fuel. So a run without a recorded exception has visited
  no page that raises, and a recorded exception is the one raised by the page visited last.
\<close>

theorem crawl_terminates_or_aborts:
  "(finite S \<and> url \<in> S \<and>
    (\<forall>u\<in>S. \<forall>doc links l.
       goto env u = Some doc \<and> getLinksFromPage env doc d = Inr links \<and>
       l \<in> set links \<and> prefix url l \<longrightarrow> l \<in> S) \<longrightarrow>
      (\<exists>fuel s.
         (\<forall>m\<ge>fuel. captureScreenshotsForAllPages env url rs d m = Some s) \<and>
         (queue s = [] \<or> thrown s \<noteq> None) \<and>
         ((\<forall>u\<in>S. \<forall>doc. goto env u = Some doc \<longrightarrow>
              snd (captureScreenshotsForPage env u rs) = None \<and>
              (\<exists>links. getLinksFromPage env doc d = Inr links)) \<longrightarrow>
          queue s = [] \<and> thrown s = None))) \<and>
   visited s0 \<subseteq> visited (iteration env url rs d s0) \<and>
   (queue s0 = u0 # q0 \<longrightarrow> visited (iteration env url rs d s0) = insert u0 (visited s0)) \<and>
   (queue s0 = u0 # q0 \<and> u0 \<notin> visited s0 \<and> goto env u0 = Some doc0 \<and>
    captureScreenshotsForPage env u0 rs = (evs, Some err) \<longrightarrow>
      iteration env url rs d s0 =
        s0\<lparr>queue := q0, visited := insert u0 (visited s0),
           visitedCount := visitedCount s0 + 1,
           trace := trace s0 @ [Shift u0, Visit u0, Goto u0 True, CapturePage u0] @ evs,
           thrown := Some err\<rparr>) \<and>
   (queue s0 = u0 # q0 \<and> u0 \<notin> visited s0 \<and> goto env u0 = Some doc0 \<and>
    captureScreenshotsForPage env u0 rs = (evs, None) \<and>
    getLinksFromPage env doc0 d = Inl err \<longrightarrow>
      iteration env url rs d s0 =
        s0\<lparr>queue := q0, visited := insert u0 (visited s0),
           visitedCount := visitedCount s0 + 1,
           trace := trace s0 @ [Shift u0, Visit u0, Goto u0 True, CapturePage u0] @ evs @
                    [ExtractLinks u0],
           thrown := Some err\<rparr>) \<and>
   (thrown (crawl env url rs d n (initial url)) \<noteq> None \<longrightarrow>
      (\<forall>m\<ge>n. captureScreenshotsForAllPages env url rs d m =
         Some (crawl env url rs d n (initial url)))) \<and>
   (thrown (crawl env url rs d n (initial url)) = None \<longrightarrow>
      (\<forall>page\<in>visited (crawl env url rs d n (initial url)). \<forall>doc.
         goto env page = Some doc \<longrightarrow>
           snd (captureScreenshotsForPage env page rs) = None \<and>
           (\<exists>links. getLinksFromPage env doc d = Inr links))) \<and>
   (thrown (crawl env url rs d n (initial url)) = Some err \<longrightarrow>
      visits (trace (crawl env url rs d n (initial url))) \<noteq> [] \<and>
      (\<exists>doc. goto env (last (visits (trace (crawl env url rs d n (initial url))))) = Some doc \<and>
         (snd (captureScreenshotsForPage env
            (last (visits (trace (crawl env url rs d n (initial url))))) rs) = Some err \<or>
          snd (captureScreenshotsForPage env
            (last (visits (trace (crawl env url rs d n (initial url))))) rs) = None \<and>
          getLinksFromPage env doc d = Inl err)))"
proof (intro conjI)
  show "finite S \<and> url \<in> S \<and>
    (\<forall>u\<in>S. \<forall>doc links l.
       goto env u = Some doc \<and> getLinksFromPage env doc d = Inr links \<and>
       l \<in> set links \<and> prefix url l \<longrightarrow> l \<in> S) \<longrightarrow>
      (\<exists>fuel s.
         (\<forall>m\<ge>fuel. captureScreenshotsForAllPages env url rs d m = Some s) \<and>
         (queue s = [] \<or> thrown s \<noteq> None) \<and>
         ((\<forall>u\<in>S. \<forall>doc. goto env u = Some doc \<longrightarrow>
              snd (captureScreenshotsForPage env u rs) = None \<and>
              (\<exists>links. getLinksFromPage env doc d = Inr links)) \<longrightarrow>
          queue s = [] \<and> thrown s = None))"
  proof
    assume hyp: "finite S \<and> url \<in> S \<and>
      (\<forall>u\<in>S. \<forall>doc links l.
         goto env u = Some doc \<and> getLinksFromPage env doc d = Inr links \<and>
         l \<in> set links \<and> prefix url l \<longrightarrow> l \<in> S)"
    then have fin: "finite S" and seed: "url \<in> S" by simp_all
    have closed: "l \<in> S" if "u \<in> S" "goto env u = Some doc"
      "getLinksFromPage env doc d = Inr links" "l \<in> set links" "startsWith l url"
      for u doc links l
      using hyp that unfolding startsWith_def by blast
    have start: "set (queue (initial url :: 'a state)) \<subseteq> S"
      using seed by (simp add: initial_def)
    have "\<exists>n. halted (crawl env url rs d n (initial url))"
    proof (rule crawl_terminates[where S = S])
      show "finite S" by (rule fin)
      show "set (queue (initial url :: 'a state)) \<subseteq> S" by (rule start)
    next
      fix u doc links l
      assume "u \<in> S" "goto env u = Some doc" "getLinksFromPage env doc d = Inr links"
        "l \<in> set links" "startsWith l url"
      then show "l \<in> S" by (rule closed)
    qed
    then obtain fuel where stop: "halted (crawl env url rs d fuel (initial url))"
      by blast
    let ?s = "crawl env url rs d fuel (initial url)"
    have always: "captureScreenshotsForAllPages env url rs d m = Some ?s" if "fuel \<le> m" for m
    proof -
      from crawl_stable[OF stop that]
      have "crawl env url rs d m (initial url) = ?s" .
      with stop show ?thesis
        by (simp add: captureScreenshotsForAllPages_def)
    qed
    have ends: "queue ?s = [] \<or> thrown ?s \<noteq> None"
      using stop by (simp add: halted_def)
    have clean: "queue ?s = [] \<and> thrown ?s = None"
      if sound: "\<forall>u\<in>S. \<forall>doc. goto env u = Some doc \<longrightarrow>
                   snd (captureScreenshotsForPage env u rs) = None \<and>
                   (\<exists>links. getLinksFromPage env doc d = Inr links)"
    proof -
      have sound': "snd (captureScreenshotsForPage env u rs) = None \<and>
          (\<exists>links. getLinksFromPage env doc d = Inr links)"
        if "u \<in> S" "goto env u = Some doc" for u doc
        using sound that by blast
      have "set (queue ?s) \<subseteq> S \<and> thrown ?s = None"
      proof (rule crawl_invariant[where P = "\<lambda>s. set (queue s) \<subseteq> S \<and> thrown s = None"])
        show "set (queue (initial url :: 'a state)) \<subseteq> S \<and>
            thrown (initial url :: 'a state) = None"
          using start by (simp add: initial_def)
      next
        fix s :: "'a state"
        assume inv: "set (queue s) \<subseteq> S \<and> thrown s = None"
        show "set (queue (iteration env url rs d s)) \<subseteq> S \<and>
            thrown (iteration env url rs d s) = None"
        proof (rule no_fatal_iteration[where S = S])
          show "set (queue s) \<subseteq> S" and "thrown s = None"
            using inv by simp_all
        next
          fix u doc links l
          assume "u \<in> S" "goto env u = Some doc" "getLinksFromPage env doc d = Inr links"
            "l \<in> set links" "startsWith l url"
          then show "l \<in> S" by (rule closed)
        next
          fix u doc
          assume "u \<in> S" "goto env u = Some doc"
          then show "snd (captureScreenshotsForPage env u rs) = None \<and>
              (\<exists>links. getLinksFromPage env doc d = Inr links)"
            by (rule sound')
        qed
      qed
      with ends show ?thesis by simp
    qed
    from always ends clean
    show "\<exists>fuel s.
         (\<forall>m\<ge>fuel. captureScreenshotsForAllPages env url rs d m = Some s) \<and>
         (queue s = [] \<or> thrown s \<noteq> None) \<and>
         ((\<forall>u\<in>S. \<forall>doc. goto env u = Some doc \<longrightarrow>
              snd (captureScreenshotsForPage env u rs) = None \<and>
              (\<exists>links. getLinksFromPage env doc d = Inr links)) \<longrightarrow>
          queue s = [] \<and> thrown s = None)"
      by blast
  qed
next
  show "visited s0 \<subseteq> visited (iteration env url rs d s0)"
    by (rule visited_iteration)
next
  show "queue s0 = u0 # q0 \<longrightarrow> visited (iteration env url rs d s0) = insert u0 (visited s0)"
  proof
    assume "queue s0 = u0 # q0"
    then obtain evs where "visited (iteration env url rs d s0) = insert u0 (visited s0)"
      by (rule iteration_summary[where env = env and url = url and rs = rs and d = d]) blast
    then show "visited (iteration env url rs d s0) = insert u0 (visited s0)" .
  qed
next
  show "queue s0 = u0 # q0 \<and> u0 \<notin> visited s0 \<and> goto env u0 = Some doc0 \<and>
    captureScreenshotsForPage env u0 rs = (evs, Some err) \<longrightarrow>
      iteration env url rs d s0 =
        s0\<lparr>queue := q0, visited := insert u0 (visited s0),
           visitedCount := visitedCount s0 + 1,
           trace := trace s0 @ [Shift u0, Visit u0, Goto u0 True, CapturePage u0] @ evs,
           thrown := Some err\<rparr>"
    by (simp add: iteration_def processPage_def)
next
  show "queue s0 = u0 # q0 \<and> u0 \<notin> visited s0 \<and> goto env u0 = Some doc0 \<and>
    captureScreenshotsForPage env u0 rs = (evs, None) \<and>
    getLinksFromPage env doc0 d = Inl err \<longrightarrow>
      iteration env url rs d s0 =
        s0\<lparr>queue := q0, visited := insert u0 (visited s0),
           visitedCount := visitedCount s0 + 1,
           trace := trace s0 @ [Shift u0, Visit u0, Goto u0 True, CapturePage u0] @ evs @
                    [ExtractLinks u0],
           thrown := Some err\<rparr>"
    by (simp add: iteration_def processPage_def)
next
  show "thrown (crawl env url rs d n (initial url)) \<noteq> None \<longrightarrow>
      (\<forall>m\<ge>n. captureScreenshotsForAllPages env url rs d m =
         Some (crawl env url rs d n (initial url)))"
  proof (intro impI allI)
    fix m
    assume raised: "thrown (crawl env url rs d n (initial url)) \<noteq> None" and "n \<le> m"
    from raised have stop: "halted (crawl env url rs d n (initial url))"
      by (simp add: halted_def)
    from crawl_stable[OF stop \<open>n \<le> m\<close>] stop
    show "captureScreenshotsForAllPages env url rs d m =
         Some (crawl env url rs d n (initial url))"
      by (simp add: captureScreenshotsForAllPages_def)
  qed
next
  show "thrown (crawl env url rs d n (initial url)) = None \<longrightarrow>
      (\<forall>page\<in>visited (crawl env url rs d n (initial url)). \<forall>doc.
         goto env page = Some doc \<longrightarrow>
           snd (captureScreenshotsForPage env page rs) = None \<and>
           (\<exists>links. getLinksFromPage env doc d = Inr links))"
    using raised_crawl[of env url rs d n] by blast
next
  show "thrown (crawl env url rs d n (initial url)) = Some err \<longrightarrow>
      visits (trace (crawl env url rs d n (initial url))) \<noteq> [] \<and>
      (\<exists>doc. goto env (last (visits (trace (crawl env url rs d n (initial url))))) = Some doc \<and>
         (snd (captureScreenshotsForPage env
            (last (visits (trace (crawl env url rs d n (initial url))))) rs) = Some err \<or>
          snd (captureScreenshotsForPage env
            (last (visits (trace (crawl env url rs d n (initial url))))) rs) = None \<and>
          getLinksFromPage env doc d = Inl err))"
    using raised_crawl[of env url rs d n] by blast
qed


theorem crawl_terminates_or_aborts_witness:
  "finite {''https://a.b/'', ''https://a.b/x'', ''https://a.b/y''} \<and>
   ''https://a.b/'' \<in> {''https://a.b/'', ''https://a.b/x'', ''https://a.b/y''} \<and>
   (\<exists>fuel s.
      (\<forall>m\<ge>fuel. captureScreenshotsForAllPages exampleSite ''https://a.b/'' [] ''a.b'' m = Some s) \<and>
      queue s = [] \<and> thrown s = None) \<and>
   map_option thrown
     (captureScreenshotsForAllPages failingSite ''https://a.b/'' [''10x7''] ''a.b'' 5) =
     Some (Some CaptureFailed) \<and>
   map_option queue
     (captureScreenshotsForAllPages failingSite ''https://a.b/'' [''10x7''] ''a.b'' 5) =
     Some [''https://a.b/x'', ''https://a.b/y''] \<and>
   thrown (iteration brokenSite ''https://a.b/'' [] ''a.b''
     (iteration brokenSite ''https://a.b/'' [] ''a.b'' (initial ''https://a.b/''))) =
     Some InvalidURL \<and>
   queue (iteration brokenSite ''https://a.b/'' [] ''a.b''
     (iteration brokenSite ''https://a.b/'' [] ''a.b'' (initial ''https://a.b/''))) =
     [''https://a.b/y''] \<and>
   last (visits (trace (crawl brokenSite ''https://a.b/'' [] ''a.b'' 2
     (initial ''https://a.b/'')))) = ''https://a.b/x'' \<and>
   snd (captureScreenshotsForPage exampleSite ''https://a.b/'' []) = None"
  (is "?w1 \<and> ?w2 \<and> ?w3 \<and> ?w4 \<and> ?w5 \<and> ?w6 \<and> ?w7 \<and> ?w8 \<and> ?w9")
proof -
  let ?S = "{''https://a.b/'', ''https://a.b/x'', ''https://a.b/y''}"
  let ?seedDoc = "\<lparr>location = ''https://a.b/'',
           elements = [Some ''/x'', Some ''mailto:m@a.b'', None, Some ''/x'',
                       Some ''https://c.d/'', Some ''https://a.b/y'', Some ''/x#top'']\<rparr>"
  let ?xDoc = "\<lparr>location = ''https://a.b/x'', elements = [Some ''/'']\<rparr>"
  have goto_x: "goto exampleSite ''https://a.b/x'' = Some ?xDoc"
    by (simp add: exampleSite_sel examplePages_def)
  have links_x: "getLinksFromPage exampleSite ?xDoc ''a.b'' = Inr [''https://a.b/'']"
    by (simp add: example_defs)
  have capture_x: "snd (captureScreenshotsForPage exampleSite ''https://a.b/x'' []) = None"
    by (simp add: captureScreenshotsForPage_def directoryOf_def example_segments
        exampleSite_sel)
  have capture_seed: "snd (captureScreenshotsForPage exampleSite ''https://a.b/'' []) = None"
    by (simp add: example_capture_none)
  have fin: "finite ?S" and mem: "''https://a.b/'' \<in> ?S"
    by simp_all
  have closed: "\<forall>u\<in>?S. \<forall>doc links l.
      goto exampleSite u = Some doc \<and> getLinksFromPage exampleSite doc ''a.b'' = Inr links \<and>
      l \<in> set links \<and> prefix ''https://a.b/'' l \<longrightarrow> l \<in> ?S"
  proof (intro ballI allI impI)
    fix u doc links l
    assume u: "u \<in> ?S"
      and a: "goto exampleSite u = Some doc \<and>
        getLinksFromPage exampleSite doc ''a.b'' = Inr links \<and>
        l \<in> set links \<and> prefix ''https://a.b/'' l"
    from u consider "u = ''https://a.b/''" | "u = ''https://a.b/x''" | "u = ''https://a.b/y''"
      by blast
    then show "l \<in> ?S"
    proof cases
      case 1
      with a example_goto(1) have "doc = ?seedDoc" by simp
      with a example_links have "links = [''https://a.b/x'', ''https://a.b/x'', ''https://a.b/y'']"
        by simp
      with a show ?thesis by auto
    next
      case 2
      with a goto_x have "doc = ?xDoc" by simp
      with a links_x have "links = [''https://a.b/'']" by simp
      with a show ?thesis by auto
    next
      case 3
      with a example_goto(2) show ?thesis by simp
    qed
  qed
  have sound: "\<forall>u\<in>?S. \<forall>doc. goto exampleSite u = Some doc \<longrightarrow>
      snd (captureScreenshotsForPage exampleSite u []) = None \<and>
      (\<exists>links. getLinksFromPage exampleSite doc ''a.b'' = Inr links)"
  proof (intro ballI allI impI)
    fix u doc
    assume u: "u \<in> ?S" and g: "goto exampleSite u = Some doc"
    from u consider "u = ''https://a.b/''" | "u = ''https://a.b/x''" | "u = ''https://a.b/y''"
      by blast
    then show "snd (captureScreenshotsForPage exampleSite u []) = None \<and>
      (\<exists>links. getLinksFromPage exampleSite doc ''a.b'' = Inr links)"
    proof cases
      case 1
      with g example_goto(1) have "doc = ?seedDoc" by simp
      with 1 capture_seed example_links show ?thesis by simp
    next
      case 2
      with g goto_x have "doc = ?xDoc" by simp
      with 2 capture_x links_x show ?thesis by simp
    next
      case 3
      with g example_goto(2) show ?thesis by simp
    qed
  qed
  from crawl_terminates_or_aborts [where S = ?S and env = exampleSite
      and url = "''https://a.b/''" and d = "''a.b''" and rs = "[]", THEN conjunct1, THEN mp,
      OF conjI [OF fin conjI [OF mem closed]]] sound
  have clean: ?w3
    by blast
  txt \<open>An exception of the capture, in the second pass on \<open>failingSite\<close>.\<close>
  let ?f0 = "initial ''https://a.b/'' :: nat state"
  let ?f1 = "iteration failingSite ''https://a.b/'' [''10x7''] ''a.b'' ?f0"
  let ?f2 = "iteration failingSite ''https://a.b/'' [''10x7''] ''a.b'' ?f1"
  have f1: "queue ?f1 = ''https://a.b/x'' # [''https://a.b/x'', ''https://a.b/y'']"
    "''https://a.b/x'' \<notin> visited ?f1" "halted ?f1 = False"
    unfolding failing_first_pass by (simp_all add: halted_def)
  have f0: "halted ?f0 = False"
    by (simp add: halted_def initial_def)
  from crawl_terminates_or_aborts [where env = failingSite and url = "''https://a.b/''"
      and d = "''a.b''" and rs = "[''10x7'']" and ?s0.0 = ?f1 and ?u0.0 = "''https://a.b/x''"
      and ?q0.0 = "[''https://a.b/x'', ''https://a.b/y'']" and ?doc0.0 = ?xDoc
      and evs = "[EnsureDir ''/app/images/a.b/x'', Screenshot (Some 10) (Some 7)]"
      and err = CaptureFailed,
      THEN conjunct2, THEN conjunct2, THEN conjunct2, THEN conjunct1, THEN mp,
      OF conjI [OF f1(1) conjI [OF f1(2) conjI [OF failing_goto(2) failing_capture(2)]]]]
  have f2: "thrown ?f2 = Some CaptureFailed" "queue ?f2 = [''https://a.b/x'', ''https://a.b/y'']"
    by simp_all
  have frun: "crawl failingSite ''https://a.b/'' [''10x7''] ''a.b'' 2 ?f0 = ?f2"
  proof -
    have "(2::nat) = Suc (Suc 0)" by simp
    then show ?thesis
      by (simp only: crawl.simps f0 f1(3) if_False)
  qed
  from crawl_terminates_or_aborts [where env = failingSite and url = "''https://a.b/''"
      and d = "''a.b''" and rs = "[''10x7'']" and n = 2,
      THEN conjunct2, THEN conjunct2, THEN conjunct2, THEN conjunct2, THEN conjunct2,
      THEN conjunct1]
  have "captureScreenshotsForAllPages failingSite ''https://a.b/'' [''10x7''] ''a.b'' 5 = Some ?f2"
    unfolding frun using f2(1) by simp
  with f2 have raised: ?w4 and left: ?w5
    by simp_all
  txt \<open>An exception of the extraction, in the second pass on \<open>brokenSite\<close>.\<close>
  let ?b0 = "initial ''https://a.b/'' :: nat state"
  let ?b1 = "iteration brokenSite ''https://a.b/'' [] ''a.b'' ?b0"
  have b1: "queue ?b1 = ''https://a.b/x'' # [''https://a.b/y'']"
    "''https://a.b/x'' \<notin> visited ?b1"
    unfolding broken_first_pass by simp_all
  from crawl_terminates_or_aborts [where env = brokenSite and url = "''https://a.b/''"
      and d = "''a.b''" and rs = "[]" and ?s0.0 = ?b1 and ?u0.0 = "''https://a.b/x''"
      and ?q0.0 = "[''https://a.b/y'']"
      and ?doc0.0 = "\<lparr>location = ''https://a.b/x'', elements = [Some ''//'']\<rparr>"
      and evs = "[EnsureDir ''/app/images/a.b/x'']" and err = InvalidURL,
      THEN conjunct2, THEN conjunct2, THEN conjunct2, THEN conjunct2, THEN conjunct1, THEN mp,
      OF conjI [OF b1(1) conjI [OF b1(2) conjI [OF broken_goto(2)
        conjI [OF broken_capture(2) broken_links(2)]]]]]
  have extraction: ?w6 and remaining: ?w7
    by simp_all
  have two: "(2::nat) = Suc (Suc 0)" by simp
  from crawl_terminates_or_aborts [where env = brokenSite and url = "''https://a.b/''"
      and d = "''a.b''" and rs = "[]" and n = 2 and err = InvalidURL,
      THEN conjunct2, THEN conjunct2, THEN conjunct2, THEN conjunct2, THEN conjunct2,
      THEN conjunct2, THEN conjunct2]
  have "\<exists>doc. goto brokenSite (last (visits (trace (crawl brokenSite ''https://a.b/'' [] ''a.b'' 2
     (initial ''https://a.b/''))))) = Some doc"
    unfolding two broken_run by simp blast
  then have "last (visits (trace (crawl brokenSite ''https://a.b/'' [] ''a.b'' 2
     (initial ''https://a.b/'')))) \<noteq> ''https://a.b/y''"
    using broken_goto(3) by auto
  moreover have "last (visits (trace (crawl brokenSite ''https://a.b/'' [] ''a.b'' 2
     (initial ''https://a.b/'')))) \<in> {''https://a.b/x''}"
    unfolding two broken_run by (simp add: projection_simps)
  ultimately have origin: ?w8 by simp
  txt \<open>No exception after the first pass on \<open>exampleSite\<close>, so its page raised none.\<close>
  from crawl_terminates_or_aborts [where env = exampleSite and url = "''https://a.b/''"
      and d = "''a.b''" and rs = "[]" and n = 1,
      THEN conjunct2, THEN conjunct2, THEN conjunct2, THEN conjunct2, THEN conjunct2,
      THEN conjunct2, THEN conjunct1]
  have kept: ?w9
    unfolding example_first_pass using example_goto(1) by simp
  from fin mem clean raised left extraction remaining origin kept show ?thesis by blast
qed

end
